theory Spec2Isabelle
  imports Main
begin

section \<open>Flow runs, states and the store\<close>

text \<open>
  The orchestration states of a flow run. \<open>PAUSED\<close> is the state type the
  Pause-Expiration service queries for; Completed, Failed, Crashed and Cancelled are
  the terminal ones.
\<close>

datatype StateType =
  SCHEDULED | PENDING | RUNNING | PAUSED | COMPLETED | FAILED | CRASHED | CANCELLING | CANCELLED

fun is_terminal :: "StateType \<Rightarrow> bool" where
  "is_terminal COMPLETED = True"
| "is_terminal FAILED = True"
| "is_terminal CRASHED = True"
| "is_terminal CANCELLED = True"
| "is_terminal _ = False"

text \<open>Points in time are integers (ticks of UTC time); an unset timeout is \<open>None\<close>.\<close>

record StateDetails =
  pause_timeout :: "int option"
  pause_reschedule :: bool

record State =
  state_type :: StateType
  message :: "string option"
  state_details :: StateDetails

record FlowRun =
  run_id :: nat
  state :: State
  state_timestamp :: int

text \<open>
  Modelled from the spec: the constructor \<open>states.Failed(message=...)\<close> of
  \<open>syntask.server.schemas.states\<close>, which is not among the sources. A Failed state
  carries its message and no pause details.
\<close>

definition Failed :: "string \<Rightarrow> State" where
  "Failed msg =
     \<lparr>state_type = FAILED, message = Some msg,
      state_details = \<lparr>pause_timeout = None, pause_reschedule = False\<rparr>\<rparr>"

datatype error =
  TypeError | InvalidTransition | RunNotFound | TerminalStateViolation | StoreConflict

datatype level = DEBUG | INFO | WARNING | ERROR

text \<open>
  What a pass does to its surroundings, in order: transactions opened, committed and
  rolled back on the store, the size of every fetched batch, every call of
  \<open>set_flow_run_state\<close> with its arguments (flow run id, proposed state, force),
  and every log record.
\<close>

datatype event =
  TxBegin | Fetched nat | SetStateCall nat State bool | TxCommit | TxRollback
  | Log level string

text \<open>
  The world a pass runs in: the rows of the flow run table, in the order in which the
  database returns them to a query, the number of clock readings taken so far, and the
  events so far. The clock is a sequence of readings: the \<open>k\<close>-th call of
  \<open>pendulum.now\<close> returns \<open>clock k\<close>.
\<close>

record world =
  rows :: "FlowRun list"
  ticks :: nat
  trace :: "event list"

type_synonym clock = "nat \<Rightarrow> int"

type_synonym set_state_fn = "world \<Rightarrow> nat \<Rightarrow> State \<Rightarrow> bool \<Rightarrow> error + world"

section \<open>The state machine\<close>

text \<open>
  Modelled from the spec: \<open>models.flow_runs.set_flow_run_state\<close>, the state
  machine's \<open>set_state(run_id, proposed_state, force)\<close>, which is not among the
  sources. It re-reads the run; an unknown id is \<open>RunNotFound\<close>; proposing the state
  the run is already in is a successful no-op that leaves the row and its timestamp
  as they are; a run in a terminal state accepts nothing else, forced or not; without
  \<open>force\<close> the rule table (a parameter: the spec does not list it) must permit the
  transition; otherwise the proposed state, with its details, becomes the current state
  and \<open>state_timestamp\<close> the time of the transition. A failed call leaves the
  world as it was.
\<close>

definition set_flow_run_state ::
  "(StateType \<Rightarrow> StateType \<Rightarrow> bool) \<Rightarrow> clock \<Rightarrow> set_state_fn" where
  "set_flow_run_state rules clock w flow_run_id proposed force =
     (case find (\<lambda>r. run_id r = flow_run_id) (rows w) of
        None \<Rightarrow> Inl RunNotFound
      | Some run \<Rightarrow>
          if state_type (state run) = state_type proposed then Inr w
          else if is_terminal (state_type (state run)) then Inl TerminalStateViolation
          else if \<not> force \<and> \<not> rules (state_type (state run)) (state_type proposed)
            then Inl InvalidTransition
          else Inr (w\<lparr>ticks := Suc (ticks w),
                       rows := map (\<lambda>r. if run_id r = flow_run_id
                                          then r\<lparr>state := proposed,
                                                 state_timestamp := clock (ticks w)\<rparr>
                                          else r) (rows w)\<rparr>))"

section \<open>The Pause-Expiration service\<close>

record FailExpiredPauses =
  batch_size :: nat

text \<open>\<open>__init__\<close>: query for this many runs to mark failed at once.\<close>

definition FailExpiredPauses_init :: FailExpiredPauses where
  "FailExpiredPauses_init = \<lparr>batch_size = 200\<rparr>"

text \<open>
  \<open>_mark_flow_run_as_failed\<close>. The comparison reads the timeout of the fetched run
  and the clock; comparing an unset timeout (\<open>None\<close>) with a time raises
  \<open>TypeError\<close>. A raised error comes with the world at the point of the raise.
\<close>

definition mark_flow_run_as_failed ::
  "set_state_fn \<Rightarrow> clock \<Rightarrow> world \<Rightarrow> FlowRun \<Rightarrow> (error \<times> world) + world" where
  "mark_flow_run_as_failed ssm clock w flow_run =
     (let t_now = clock (ticks w);
          w1 = w\<lparr>ticks := Suc (ticks w)\<rparr>
      in case pause_timeout (state_details (state flow_run)) of
           None \<Rightarrow> Inl (TypeError, w1)
         | Some t \<Rightarrow>
             if t < t_now then
               (let st = Failed ''The flow was paused and never resumed.'';
                    w2 = w1\<lparr>trace := trace w1 @ [SetStateCall (run_id flow_run) st True]\<rparr>
                in case ssm w2 (run_id flow_run) st True of
                     Inl e \<Rightarrow> Inl (e, w2)
                   | Inr w3 \<Rightarrow> Inr w3)
             else Inr w1)"

text \<open>The \<open>for run in runs\<close> loop of \<open>run_once\<close>: no error is caught in it.\<close>

fun mark_each :: "set_state_fn \<Rightarrow> clock \<Rightarrow> world \<Rightarrow> FlowRun list \<Rightarrow> (error \<times> world) + world" where
  "mark_each ssm clock w [] = Inr w"
| "mark_each ssm clock w (run # runs) =
     (case mark_flow_run_as_failed ssm clock w run of
        Inl ew \<Rightarrow> Inl ew
      | Inr w' \<Rightarrow> mark_each ssm clock w' runs)"

text \<open>
  The query: the flow runs whose state type is \<open>PAUSED\<close>, at most \<open>batch_size\<close> of
  them, with no other filter, no ordering and no offset.
\<close>

definition is_paused :: "FlowRun \<Rightarrow> bool" where
  "is_paused r \<longleftrightarrow> state_type (state r) = PAUSED"

definition select_paused :: "nat \<Rightarrow> world \<Rightarrow> FlowRun list" where
  "select_paused limit w = take limit (filter is_paused (rows w))"

text \<open>
  The \<open>while True\<close> loop of \<open>run_once\<close>. Every turn opens a transaction, fetches a
  batch and marks its runs; an error leaves the \<open>with\<close> block, which rolls the
  transaction back, and the loop; otherwise the block commits, and the loop ends when
  the batch was smaller than \<open>batch_size\<close>. A loop that never ends has no result
  (\<open>None\<close>).
\<close>

partial_function (option) run_once_loop ::
  "set_state_fn \<Rightarrow> clock \<Rightarrow> nat \<Rightarrow> world \<Rightarrow> ((error \<times> world) + world) option" where
  "run_once_loop ssm clock bs w =
     (let runs = select_paused bs w;
          w0 = w\<lparr>trace := trace w @ [TxBegin, Fetched (length runs)]\<rparr>
      in case mark_each ssm clock w0 runs of
           Inl ew \<Rightarrow>
             Some (Inl (fst ew, (snd ew)\<lparr>rows := rows w,
                                         trace := trace (snd ew) @ [TxRollback]\<rparr>))
         | Inr w1 \<Rightarrow>
             (let w2 = w1\<lparr>trace := trace w1 @ [TxCommit]\<rparr>
              in if length runs < bs then Some (Inr w2)
                 else run_once_loop ssm clock bs w2))"

definition run_once ::
  "FailExpiredPauses \<Rightarrow> set_state_fn \<Rightarrow> clock \<Rightarrow> world \<Rightarrow> ((error \<times> world) + world) option" where
  "run_once self ssm clock w =
     (case run_once_loop ssm clock (batch_size self) w of
        None \<Rightarrow> None
      | Some (Inl ew) \<Rightarrow> Some (Inl ew)
      | Some (Inr w') \<Rightarrow>
          Some (Inr (w'\<lparr>trace := trace w' @ [Log INFO ''Finished monitoring for late runs.'']\<rparr>)))"

section \<open>What a pass does to a run\<close>

text \<open>The state the service proposes for an expired pause.\<close>

definition never_resumed :: State where
  "never_resumed = Failed ''The flow was paused and never resumed.''"

text \<open>
  A run's pause has expired throughout a pass when its timeout is set and earlier than
  every reading of the clock, and is pending throughout when its timeout is set and no
  reading of the clock is later.
\<close>

definition expired_throughout :: "clock \<Rightarrow> FlowRun \<Rightarrow> bool" where
  "expired_throughout clock r \<longleftrightarrow>
     (\<exists>t. pause_timeout (state_details (state r)) = Some t \<and> (\<forall>k. t < clock k))"

definition pending_throughout :: "clock \<Rightarrow> FlowRun \<Rightarrow> bool" where
  "pending_throughout clock r \<longleftrightarrow>
     (\<exists>t. pause_timeout (state_details (state r)) = Some t \<and> (\<forall>k. clock k \<le> t))"

text \<open>\<open>r'\<close> is the paused run \<open>r\<close> after its transition to the Failed state.\<close>

definition was_failed :: "FlowRun \<Rightarrow> FlowRun \<Rightarrow> bool" where
  "was_failed r r' \<longleftrightarrow>
     is_paused r \<and> (\<exists>ts. r' = r\<lparr>state := never_resumed, state_timestamp := ts\<rparr>)"

text \<open>
  The store a pass starts from: flow run ids are a primary key, and every Paused run
  carries a timeout.
\<close>

definition store_ok :: "world \<Rightarrow> bool" where
  "store_ok w \<longleftrightarrow>
     distinct (map run_id (rows w)) \<and>
     (\<forall>r \<in> set (rows w). is_paused r \<longrightarrow> pause_timeout (state_details (state r)) \<noteq> None)"

text \<open>
  How the row \<open>r\<close> of the store relates to the row \<open>r'\<close> at the same place after the
  runs \<open>S\<close> have been marked, \<open>T\<close> being the events so far.
\<close>

definition batch_rel :: "clock \<Rightarrow> FlowRun set \<Rightarrow> event set \<Rightarrow> FlowRun \<Rightarrow> FlowRun \<Rightarrow> bool" where
  "batch_rel clock S T r r' \<longleftrightarrow>
     (r \<notin> S \<longrightarrow> r' = r) \<and>
     (r' = r \<or> was_failed r r') \<and>
     (r \<in> S \<and> expired_throughout clock r \<longrightarrow>
        was_failed r r' \<and> SetStateCall (run_id r) never_resumed True \<in> T) \<and>
     (pending_throughout clock r \<longrightarrow> r' = r)"

fun is_call :: "event \<Rightarrow> bool" where
  "is_call (SetStateCall _ _ _) = True"
| "is_call _ = False"

text \<open>
  How the row \<open>r\<close> of the store relates to the row \<open>r'\<close> at the same place after a
  whole pass, \<open>T\<close> being the events of the pass.
\<close>

definition pass_rel :: "clock \<Rightarrow> event set \<Rightarrow> FlowRun \<Rightarrow> FlowRun \<Rightarrow> bool" where
  "pass_rel clock T r r' \<longleftrightarrow>
     (r' = r \<or> was_failed r r') \<and>
     (is_paused r \<and> expired_throughout clock r \<longrightarrow>
        was_failed r r' \<and> SetStateCall (run_id r) never_resumed True \<in> T) \<and>
     (pending_throughout clock r \<longrightarrow> r' = r)"

text \<open>The Paused runs of the store whose pause has not expired throughout the pass.\<close>

definition unexpired :: "clock \<Rightarrow> world \<Rightarrow> FlowRun list" where
  "unexpired clock w =
     filter (\<lambda>r. is_paused r \<and> \<not> expired_throughout clock r) (rows w)"

text \<open>
  A store on which the pass cannot make progress: the query returns a full batch, and
  the pause of every run in it is pending throughout.
\<close>

definition stuck :: "clock \<Rightarrow> nat \<Rightarrow> world \<Rightarrow> bool" where
  "stuck clock bs w \<longleftrightarrow>
     length (select_paused bs w) = bs \<and> (\<forall>r\<in>set (select_paused bs w). pending_throughout clock r)"

text \<open>A Paused flow run with the given id and timeout, for concrete stores.\<close>

definition paused_run :: "nat \<Rightarrow> int option \<Rightarrow> FlowRun" where
  "paused_run i t =
     \<lparr>run_id = i,
      state = \<lparr>state_type = PAUSED, message = None,
               state_details = \<lparr>pause_timeout = t, pause_reschedule = False\<rparr>\<rparr>,
      state_timestamp = 0\<rparr>"

definition store_of :: "FlowRun list \<Rightarrow> world" where
  "store_of rs = \<lparr>rows = rs, ticks = 0, trace = []\<rparr>"

text \<open>
  A state machine that raises the error \<open>e\<close> for the flow run \<open>i\<close> (the run was
  changed by someone else in the meantime, say) and behaves as \<open>ssm\<close> otherwise.
\<close>

definition fails_for :: "nat \<Rightarrow> error \<Rightarrow> set_state_fn \<Rightarrow> set_state_fn" where
  "fails_for i e ssm w flow_run_id proposed force =
     (if flow_run_id = i then Inl e else ssm w flow_run_id proposed force)"

text \<open>
  Five expired candidates, a state machine that refuses the second of them, and the
  world after the attempt for the first and for the second candidate.
\<close>

definition five_candidates :: "FlowRun list" where
  "five_candidates =
     [paused_run 1 (Some 0), paused_run 2 (Some 0), paused_run 3 (Some 0),
      paused_run 4 (Some 0), paused_run 5 (Some 0)]"

definition refusing_second :: set_state_fn where
  "refusing_second =
     fails_for 2 InvalidTransition (set_flow_run_state (\<lambda>a b. True) (\<lambda>k. 10))"

definition after_first_candidate :: world where
  "after_first_candidate =
     \<lparr>rows = (paused_run 1 (Some 0))\<lparr>state := never_resumed, state_timestamp := 10\<rparr>
               # tl five_candidates,
      ticks = 2,
      trace = [TxBegin, Fetched 5, SetStateCall 1 never_resumed True]\<rparr>"

definition after_second_candidate :: world where
  "after_second_candidate =
     after_first_candidate
       \<lparr>ticks := 3,
        trace := trace after_first_candidate @ [SetStateCall 2 never_resumed True]\<rparr>"

section \<open>The loop service framework\<close>

text \<open>
  The state of a loop service: the world its \<open>run_once\<close> acts on, the number of
  iterations begun, the records its logger has emitted, and whether it is running.
\<close>

record 'w loop_service =
  inner :: 'w
  iterations :: nat
  service_log :: "(level \<times> string) list"
  is_running :: bool

text \<open>
  Modelled from the spec: the loop of the loop service framework
  (\<open>syntask.server.services.loop_service\<close>, the base class of
  \<open>FailExpiredPauses\<close>), which is not among the sources; only a test of one of its
  services is. Every iteration invokes \<open>run_once\<close> and then sleeps; with \<open>loops\<close>
  a number the loop stops after that many iterations; an error that \<open>run_once\<close>
  raises is caught at the loop boundary, logged at error severity with the short
  description of the exception, and ends the loop; \<open>stop()\<close> makes the loop end at
  the next boundary between iterations. Sleeping passes time and changes nothing else,
  so it does not show in the state. A loop that never ends has no result.
\<close>

partial_function (option) run_loop ::
  "('w \<Rightarrow> ((error \<times> 'w) + 'w) option) \<Rightarrow> (error \<Rightarrow> string) \<Rightarrow> nat option
     \<Rightarrow> 'w loop_service \<Rightarrow> 'w loop_service option" where
  "run_loop run_once_fn describe loops s =
     (if \<not> is_running s then Some s
      else if (case loops of None \<Rightarrow> False | Some n \<Rightarrow> n \<le> iterations s)
        then Some (s\<lparr>is_running := False\<rparr>)
      else Option.bind (run_once_fn (inner s)) (\<lambda>res.
        case res of
          Inl ew \<Rightarrow>
            Some (s\<lparr>inner := snd ew, iterations := Suc (iterations s),
                    service_log := service_log s @ [(ERROR, describe (fst ew))],
                    is_running := False\<rparr>)
        | Inr w' \<Rightarrow>
            run_loop run_once_fn describe loops
              (s\<lparr>inner := w', iterations := Suc (iterations s)\<rparr>)))"

text \<open>
  Modelled from the spec: \<open>start(loops)\<close> of the same framework, which enters the
  loop with a service that is running and has done nothing yet.
\<close>

definition start ::
  "('w \<Rightarrow> ((error \<times> 'w) + 'w) option) \<Rightarrow> (error \<Rightarrow> string) \<Rightarrow> nat option
     \<Rightarrow> 'w \<Rightarrow> 'w loop_service option" where
  "start run_once_fn describe loops w =
     run_loop run_once_fn describe loops
       \<lparr>inner = w, iterations = 0, service_log = [], is_running = True\<rparr>"

text \<open>A service for concrete runs: it counts up and fails with \<open>StoreConflict\<close> at 2.\<close>

definition counting_service :: "nat \<Rightarrow> ((error \<times> nat) + nat) option" where
  "counting_service n = (if n < 2 then Some (Inr (Suc n)) else Some (Inl (StoreConflict, n)))"

section \<open>The worker tables: schema and migration\<close>

text \<open>
  The migration \<open>f7587d6c5776\<close> (add worker tables) declares tables, indexes and
  foreign keys through Alembic operations. A schema is what these operations build:
  tables with their columns and constraints, and indexes.
\<close>

datatype sqltype = UUID | Timestamp | String | JSON | Boolean | Integer

record column =
  col_name :: string
  col_type :: sqltype
  nullable :: bool
  server_default :: "string option"

datatype ondelete_action = CASCADE | RESTRICT | SET_NULL | NO_ACTION

text \<open>
  \<open>PrimaryKeyConstraint\<close> and \<open>UniqueConstraint\<close>: the columns and the name of
  the constraint. \<open>ForeignKeyConstraint\<close>: the referencing columns, the referenced
  table and its columns, the name, and the \<open>ondelete\<close> action.
\<close>

datatype table_constraint =
  PrimaryKeyConstraint "string list" string
| UniqueConstraint "string list" string
| ForeignKeyConstraint "string list" string "string list" string ondelete_action

record table =
  table_name :: string
  columns :: "column list"
  constraints :: "table_constraint list"

record index_def =
  index_name :: string
  index_table :: string
  index_columns :: "string list"
  index_unique :: bool

record schema =
  tables :: "table list"
  indexes :: "index_def list"

text \<open>
  The operations the migration uses: \<open>op.create_table\<close>, \<open>op.create_index\<close>
  (name, table, columns, unique), and inside \<open>op.batch_alter_table\<close> blocks
  \<open>add_column\<close> (table, column) and \<open>create_foreign_key\<close> (name, table, referent
  table, local columns, remote columns, ondelete).
\<close>

datatype ddl_op =
  CreateTable string "column list" "table_constraint list"
| CreateIndex string string "string list" bool
| AddColumn string column
| CreateForeignKey string string string "string list" "string list" ondelete_action

datatype ddl_error = DuplicateTable string | UndefinedTable string
  | DuplicateColumn string string | UndefinedColumn string string

definition table_names :: "schema \<Rightarrow> string list" where
  "table_names s = map table_name (tables s)"

definition find_table :: "schema \<Rightarrow> string \<Rightarrow> table option" where
  "find_table s t = find (\<lambda>tb. table_name tb = t) (tables s)"

definition column_names :: "schema \<Rightarrow> string \<Rightarrow> string list" where
  "column_names s t =
     (case find_table s t of None \<Rightarrow> [] | Some tb \<Rightarrow> map col_name (columns tb))"

text \<open>The table a foreign key constraint refers to, if the constraint is one.\<close>

fun referred_table :: "table_constraint \<Rightarrow> string option" where
  "referred_table (ForeignKeyConstraint cols rt rcols nm od) = Some rt"
| "referred_table _ = None"

definition alter_table :: "string \<Rightarrow> (table \<Rightarrow> table) \<Rightarrow> schema \<Rightarrow> schema" where
  "alter_table t f s =
     s\<lparr>tables := map (\<lambda>tb. if table_name tb = t then f tb else tb) (tables s)\<rparr>"

text \<open>
  What the database does with an operation: it refuses to create a table that exists,
  and to refer to a table or column that does not.
\<close>

fun apply_op :: "ddl_op \<Rightarrow> schema \<Rightarrow> ddl_error + schema" where
  "apply_op (CreateTable n cols cons) s =
     (if n \<in> set (table_names s) then Inl (DuplicateTable n)
      else case find (\<lambda>rt. rt \<notin> set (n # table_names s))
                     (List.map_filter referred_table cons) of
             Some rt \<Rightarrow> Inl (UndefinedTable rt)
           | None \<Rightarrow>
               Inr (s\<lparr>tables := tables s @
                        [\<lparr>table_name = n, columns = cols, constraints = cons\<rparr>]\<rparr>))"
| "apply_op (CreateIndex nm t cols uq) s =
     (if t \<notin> set (table_names s) then Inl (UndefinedTable t)
      else case find (\<lambda>c. c \<notin> set (column_names s t)) cols of
             Some c \<Rightarrow> Inl (UndefinedColumn t c)
           | None \<Rightarrow>
               Inr (s\<lparr>indexes := indexes s @
                        [\<lparr>index_name = nm, index_table = t, index_columns = cols,
                          index_unique = uq\<rparr>]\<rparr>))"
| "apply_op (AddColumn t col) s =
     (if t \<notin> set (table_names s) then Inl (UndefinedTable t)
      else if col_name col \<in> set (column_names s t) then Inl (DuplicateColumn t (col_name col))
      else Inr (alter_table t (\<lambda>tb. tb\<lparr>columns := columns tb @ [col]\<rparr>) s))"
| "apply_op (CreateForeignKey nm t rt cols rcols od) s =
     (if t \<notin> set (table_names s) then Inl (UndefinedTable t)
      else if rt \<notin> set (table_names s) then Inl (UndefinedTable rt)
      else case find (\<lambda>c. c \<notin> set (column_names s t)) cols of
             Some c \<Rightarrow> Inl (UndefinedColumn t c)
           | None \<Rightarrow>
              (case find (\<lambda>c. c \<notin> set (column_names s rt)) rcols of
                 Some c \<Rightarrow> Inl (UndefinedColumn rt c)
               | None \<Rightarrow>
                   Inr (alter_table t
                          (\<lambda>tb. tb\<lparr>constraints := constraints tb @
                                     [ForeignKeyConstraint cols rt rcols nm od]\<rparr>) s)))"

text \<open>A migration runs its operations in order and stops at the first error.\<close>

fun run_ops :: "ddl_op list \<Rightarrow> schema \<Rightarrow> ddl_error + schema" where
  "run_ops [] s = Inr s"
| "run_ops (op # ops) s =
     (case apply_op op s of Inl e \<Rightarrow> Inl e | Inr s' \<Rightarrow> run_ops ops s')"

text \<open>The columns every table of this migration starts with.\<close>

definition id_created_updated :: "column list" where
  "id_created_updated =
     [\<lparr>col_name = ''id'', col_type = UUID, nullable = False,
       server_default = Some ''(GEN_RANDOM_UUID())''\<rparr>,
      \<lparr>col_name = ''created'', col_type = Timestamp, nullable = False,
       server_default = Some ''CURRENT_TIMESTAMP''\<rparr>,
      \<lparr>col_name = ''updated'', col_type = Timestamp, nullable = False,
       server_default = Some ''CURRENT_TIMESTAMP''\<rparr>]"

definition worker_pool_columns :: "column list" where
  "worker_pool_columns = id_created_updated @
     [\<lparr>col_name = ''name'', col_type = String, nullable = False, server_default = None\<rparr>,
      \<lparr>col_name = ''description'', col_type = String, nullable = True, server_default = None\<rparr>,
      \<lparr>col_name = ''type'', col_type = String, nullable = True, server_default = None\<rparr>,
      \<lparr>col_name = ''base_job_template'', col_type = JSON, nullable = False,
       server_default = Some ''{}''\<rparr>,
      \<lparr>col_name = ''is_paused'', col_type = Boolean, nullable = False,
       server_default = Some ''0''\<rparr>,
      \<lparr>col_name = ''concurrency_limit'', col_type = Integer, nullable = True,
       server_default = None\<rparr>,
      \<lparr>col_name = ''default_queue_id'', col_type = UUID, nullable = True,
       server_default = None\<rparr>]"

definition worker_pool_constraints :: "table_constraint list" where
  "worker_pool_constraints =
     [PrimaryKeyConstraint [''id''] ''pk_worker_pool'',
      UniqueConstraint [''name''] ''uq_worker_pool__name'']"

definition worker_columns :: "column list" where
  "worker_columns = id_created_updated @
     [\<lparr>col_name = ''name'', col_type = String, nullable = False, server_default = None\<rparr>,
      \<lparr>col_name = ''last_heartbeat_time'', col_type = Timestamp, nullable = False,
       server_default = Some ''CURRENT_TIMESTAMP''\<rparr>,
      \<lparr>col_name = ''worker_pool_id'', col_type = UUID, nullable = False,
       server_default = None\<rparr>]"

definition worker_constraints :: "table_constraint list" where
  "worker_constraints =
     [ForeignKeyConstraint [''worker_pool_id''] ''worker_pool'' [''id'']
        ''fk_worker__worker_pool_id__worker_pool'' CASCADE,
      PrimaryKeyConstraint [''id''] ''pk_worker'',
      UniqueConstraint [''worker_pool_id'', ''name''] ''uq_worker__worker_pool_id_name'']"

definition worker_pool_queue_columns :: "column list" where
  "worker_pool_queue_columns = id_created_updated @
     [\<lparr>col_name = ''name'', col_type = String, nullable = False, server_default = None\<rparr>,
      \<lparr>col_name = ''description'', col_type = String, nullable = True, server_default = None\<rparr>,
      \<lparr>col_name = ''is_paused'', col_type = Boolean, nullable = False,
       server_default = Some ''0''\<rparr>,
      \<lparr>col_name = ''concurrency_limit'', col_type = Integer, nullable = True,
       server_default = None\<rparr>,
      \<lparr>col_name = ''priority'', col_type = Integer, nullable = False, server_default = None\<rparr>,
      \<lparr>col_name = ''worker_pool_id'', col_type = UUID, nullable = False,
       server_default = None\<rparr>]"

definition worker_pool_queue_constraints :: "table_constraint list" where
  "worker_pool_queue_constraints =
     [ForeignKeyConstraint [''worker_pool_id''] ''worker_pool'' [''id'']
        ''fk_worker_pool_queue__worker_pool_id__worker_pool'' CASCADE,
      PrimaryKeyConstraint [''id''] ''pk_worker_pool_queue'',
      UniqueConstraint [''worker_pool_id'', ''name'']
        ''uq_worker_pool_queue__worker_pool_id_name'']"

definition create_worker_pool :: "ddl_op list" where
  "create_worker_pool =
     [CreateTable ''worker_pool'' worker_pool_columns worker_pool_constraints,
      CreateIndex ''ix_worker_pool__updated'' ''worker_pool'' [''updated''] False,
      CreateIndex ''ix_worker_pool__type'' ''worker_pool'' [''type''] False]"

definition create_worker :: "ddl_op list" where
  "create_worker =
     [CreateTable ''worker'' worker_columns worker_constraints,
      CreateIndex ''ix_worker__updated'' ''worker'' [''updated''] False,
      CreateIndex ''ix_worker__worker_pool_id'' ''worker'' [''worker_pool_id''] False,
      CreateIndex ''ix_worker__worker_pool_id_last_heartbeat_time'' ''worker''
        [''worker_pool_id'', ''last_heartbeat_time''] False]"

definition create_worker_pool_queue :: "ddl_op list" where
  "create_worker_pool_queue =
     [CreateTable ''worker_pool_queue'' worker_pool_queue_columns worker_pool_queue_constraints,
      CreateIndex ''ix_worker_pool_queue__updated'' ''worker_pool_queue'' [''updated''] False,
      CreateIndex ''ix_worker_pool_queue__worker_pool_id_priority'' ''worker_pool_queue''
        [''worker_pool_id'', ''priority''] False,
      CreateIndex ''ix_worker_pool_queue__worker_pool_id'' ''worker_pool_queue''
        [''worker_pool_id''] False]"

definition alter_worker_pool :: "ddl_op list" where
  "alter_worker_pool =
     [CreateForeignKey ''fk_worker_pool__default_queue_id__worker_pool_queue''
        ''worker_pool'' ''worker_pool_queue'' [''default_queue_id''] [''id''] RESTRICT]"

definition alter_deployment :: "ddl_op list" where
  "alter_deployment =
     [AddColumn ''deployment''
        \<lparr>col_name = ''worker_pool_queue_id'', col_type = UUID, nullable = True,
         server_default = None\<rparr>,
      CreateIndex ''ix_deployment__worker_pool_queue_id'' ''deployment''
        [''worker_pool_queue_id''] False,
      CreateForeignKey ''fk_deployment__worker_pool_queue_id__worker_pool_queue''
        ''deployment'' ''worker_pool_queue'' [''worker_pool_queue_id''] [''id''] SET_NULL]"

definition alter_flow_run :: "ddl_op list" where
  "alter_flow_run =
     [AddColumn ''flow_run''
        \<lparr>col_name = ''worker_pool_queue_id'', col_type = UUID, nullable = True,
         server_default = None\<rparr>,
      CreateIndex ''ix_flow_run__worker_pool_queue_id'' ''flow_run''
        [''worker_pool_queue_id''] False,
      CreateForeignKey ''fk_flow_run__worker_pool_queue_id__worker_pool_queue''
        ''flow_run'' ''worker_pool_queue'' [''worker_pool_queue_id''] [''id''] SET_NULL]"

definition upgrade_ops :: "ddl_op list" where
  "upgrade_ops =
     create_worker_pool @ create_worker @ create_worker_pool_queue @ alter_worker_pool @
     alter_deployment @ alter_flow_run"

text \<open>
  \<open>upgrade\<close>, on the schema the earlier migrations have built (they are not among
  the sources; they have created \<open>deployment\<close> and \<open>flow_run\<close>).
\<close>

definition upgrade :: "schema \<Rightarrow> ddl_error + schema" where
  "upgrade s = run_ops upgrade_ops s"

text \<open>The tables of a schema that go by a name, and whether an operation changes them.\<close>

definition tables_named :: "schema \<Rightarrow> string \<Rightarrow> table list" where
  "tables_named s t = filter (\<lambda>tb. table_name tb = t) (tables s)"

fun touches :: "ddl_op \<Rightarrow> string \<Rightarrow> bool" where
  "touches (CreateTable n cols cons) t = (n = t)"
| "touches (CreateIndex nm t' cols uq) t = False"
| "touches (AddColumn t' col) t = (t' = t)"
| "touches (CreateForeignKey nm t' rt cols rcols od) t = (t' = t)"

section \<open>Rows, constraints and statements\<close>

text \<open>
  What the declarations of a schema mean for the rows of a database, as PostgreSQL
  enforces them. A row gives values to column names (a column it does not name is
  \<open>NULL\<close>); a database gives every table name its rows.
\<close>

datatype val = NULL | UuidV nat | TextV string | IntV int | BoolV bool | TimeV int | JsonV string

type_synonym row = "(string \<times> val) list"

type_synonym database = "string \<Rightarrow> row list"

definition cell :: "row \<Rightarrow> string \<Rightarrow> val" where
  "cell r c = (case map_of r c of None \<Rightarrow> NULL | Some v \<Rightarrow> v)"

definition key_of :: "string list \<Rightarrow> row \<Rightarrow> val list" where
  "key_of cols r = map (cell r) cols"

text \<open>\<open>NOT NULL\<close> columns hold no \<open>NULL\<close>.\<close>

definition not_null_ok :: "table \<Rightarrow> row list \<Rightarrow> bool" where
  "not_null_ok tb rs =
     list_all (\<lambda>c. nullable c \<or> list_all (\<lambda>r. cell r (col_name c) \<noteq> NULL) rs) (columns tb)"

text \<open>Uniqueness: no two rows agree on the columns; a key with a \<open>NULL\<close> equals none.\<close>

definition unique_ok :: "string list \<Rightarrow> row list \<Rightarrow> bool" where
  "unique_ok cols rs = distinct (filter (\<lambda>k. NULL \<notin> set k) (map (key_of cols) rs))"

text \<open>
  \<open>child\<close> refers to \<open>parent\<close> through a foreign key on \<open>cols\<close> to \<open>rcols\<close>.
\<close>

definition refers :: "string list \<Rightarrow> string list \<Rightarrow> row \<Rightarrow> row \<Rightarrow> bool" where
  "refers cols rcols child parent \<longleftrightarrow>
     NULL \<notin> set (key_of cols child) \<and> key_of cols child = key_of rcols parent"

fun constraint_ok :: "database \<Rightarrow> row list \<Rightarrow> table_constraint \<Rightarrow> bool" where
  "constraint_ok db rs (PrimaryKeyConstraint cols nm) =
     (unique_ok cols rs \<and> list_all (\<lambda>r. NULL \<notin> set (key_of cols r)) rs)"
| "constraint_ok db rs (UniqueConstraint cols nm) = unique_ok cols rs"
| "constraint_ok db rs (ForeignKeyConstraint cols rt rcols nm od) =
     list_all (\<lambda>r. NULL \<in> set (key_of cols r) \<or> list_ex (refers cols rcols r) (db rt)) rs"

definition table_ok :: "schema \<Rightarrow> database \<Rightarrow> table \<Rightarrow> bool" where
  "table_ok s db tb \<longleftrightarrow>
     not_null_ok tb (db (table_name tb)) \<and>
     list_all (constraint_ok db (db (table_name tb))) (constraints tb) \<and>
     list_all (\<lambda>ix. index_table ix = table_name tb \<and> index_unique ix \<longrightarrow>
                      unique_ok (index_columns ix) (db (table_name tb))) (indexes s)"

definition valid :: "schema \<Rightarrow> database \<Rightarrow> bool" where
  "valid s db = list_all (table_ok s db) (tables s)"

text \<open>
  The foreign keys of a schema: referencing table and columns, referenced table and
  columns, \<open>ondelete\<close> action.
\<close>

fun foreign_key_of ::
  "string \<Rightarrow> table_constraint
     \<Rightarrow> (string \<times> string list \<times> string \<times> string list \<times> ondelete_action) option" where
  "foreign_key_of t (ForeignKeyConstraint cols rt rcols nm od) = Some (t, cols, rt, rcols, od)"
| "foreign_key_of t _ = None"

definition foreign_keys ::
  "schema \<Rightarrow> (string \<times> string list \<times> string \<times> string list \<times> ondelete_action) list" where
  "foreign_keys s =
     concat (map (\<lambda>tb. List.map_filter (foreign_key_of (table_name tb)) (constraints tb))
                 (tables s))"

text \<open>
  Deleting rows. \<open>D t r\<close> says that the row \<open>r\<close> of table \<open>t\<close> is to be deleted.
  One step of cascading adds the rows that refer, through a foreign key with
  \<open>ON DELETE CASCADE\<close>, to a row that is to be deleted; as every step that adds
  anything adds a row, as many steps as there are rows reach all of them.
\<close>

definition cascade_step ::
  "schema \<Rightarrow> database \<Rightarrow> (string \<Rightarrow> row \<Rightarrow> bool) \<Rightarrow> (string \<Rightarrow> row \<Rightarrow> bool)" where
  "cascade_step s db D = (\<lambda>t r.
     D t r \<or>
     list_ex (\<lambda>(ct, cols, rt, rcols, od).
                ct = t \<and> od = CASCADE \<and> list_ex (\<lambda>p. D rt p \<and> refers cols rcols r p) (db rt))
             (foreign_keys s))"

definition row_count :: "schema \<Rightarrow> database \<Rightarrow> nat" where
  "row_count s db = sum_list (map (\<lambda>tb. length (db (table_name tb))) (tables s))"

definition doomed :: "schema \<Rightarrow> database \<Rightarrow> string \<Rightarrow> (row \<Rightarrow> bool) \<Rightarrow> (string \<Rightarrow> row \<Rightarrow> bool)" where
  "doomed s db t p = ((cascade_step s db) ^^ (row_count s db)) (\<lambda>t' r. t' = t \<and> p r)"

text \<open>
  A row that stays and refers to a deleted row: \<open>ON DELETE SET NULL\<close> sets the
  referencing columns to \<open>NULL\<close>; \<open>RESTRICT\<close> and \<open>NO ACTION\<close> refuse the
  statement.
\<close>

definition null_out :: "schema \<Rightarrow> database \<Rightarrow> (string \<Rightarrow> row \<Rightarrow> bool) \<Rightarrow> string \<Rightarrow> row \<Rightarrow> row" where
  "null_out s db D t r =
     fold (\<lambda>(ct, cols, rt, rcols, od) r'.
             if ct = t \<and> od = SET_NULL \<and> list_ex (\<lambda>p. D rt p \<and> refers cols rcols r p) (db rt)
             then map (\<lambda>c. (c, NULL)) cols @ r' else r')
          (foreign_keys s) r"

definition blocked :: "schema \<Rightarrow> database \<Rightarrow> (string \<Rightarrow> row \<Rightarrow> bool) \<Rightarrow> bool" where
  "blocked s db D =
     list_ex (\<lambda>(ct, cols, rt, rcols, od).
                (od = RESTRICT \<or> od = NO_ACTION) \<and>
                list_ex (\<lambda>r. \<not> D ct r \<and> list_ex (\<lambda>p. D rt p \<and> refers cols rcols r p) (db rt))
                        (db ct))
             (foreign_keys s)"

datatype db_error = IntegrityError | UndefinedTableError

definition checked :: "schema \<Rightarrow> database \<Rightarrow> db_error + database" where
  "checked s db = (if valid s db then Inr db else Inl IntegrityError)"

definition delete_from ::
  "schema \<Rightarrow> database \<Rightarrow> string \<Rightarrow> (row \<Rightarrow> bool) \<Rightarrow> db_error + database" where
  "delete_from s db t p =
     (let D = doomed s db t p
      in if blocked s db D then Inl IntegrityError
         else checked s (\<lambda>t'. map (null_out s db D t') (filter (\<lambda>r. \<not> D t' r) (db t'))))"

text \<open>
  Statements: insert a row into a table; update the rows of a table that satisfy a
  condition, setting columns to values; delete the rows of a table that satisfy a
  condition. A statement whose result would break a declared constraint is refused.
\<close>

datatype statement =
  Insert string row
| Update string "row \<Rightarrow> bool" "(string \<times> val) list"
| Delete string "row \<Rightarrow> bool"

fun exec :: "schema \<Rightarrow> statement \<Rightarrow> database \<Rightarrow> db_error + database" where
  "exec s (Insert t r) db =
     (if t \<notin> set (table_names s) then Inl UndefinedTableError
      else checked s (db(t := db t @ [r])))"
| "exec s (Update t p sets) db =
     (if t \<notin> set (table_names s) then Inl UndefinedTableError
      else checked s (db(t := map (\<lambda>r. if p r then sets @ r else r) (db t))))"
| "exec s (Delete t p) db =
     (if t \<notin> set (table_names s) then Inl UndefinedTableError
      else delete_from s db t p)"

text \<open>
  A sequence of statements, each in its own transaction: a refused statement leaves
  the database as it was.
\<close>

definition exec_all :: "schema \<Rightarrow> statement list \<Rightarrow> database \<Rightarrow> database" where
  "exec_all s sts db =
     fold (\<lambda>st d. case exec s st d of Inl e \<Rightarrow> d | Inr d' \<Rightarrow> d') sts db"

section \<open>The effective concurrency limit\<close>

text \<open>The \<open>concurrency_limit\<close> of a pool or queue row: unset when the cell is \<open>NULL\<close>.\<close>

definition concurrency_limit :: "row \<Rightarrow> int option" where
  "concurrency_limit r = (case cell r ''concurrency_limit'' of IntV n \<Rightarrow> Some n | _ \<Rightarrow> None)"

text \<open>
  Modelled from the spec: \<open>effective_concurrency_limit(queue)\<close>, the read-only query
  of the worker pool and queue model, which is not among the sources. It is
  \<open>min(pool.concurrency_limit or \<infinity>, queue.concurrency_limit or \<infinity>)\<close>, where
  \<open>or \<infinity>\<close> stands in for a limit that is not set, and no limit at all when
  neither is set.
\<close>

definition effective_concurrency_limit :: "row \<Rightarrow> row \<Rightarrow> int option" where
  "effective_concurrency_limit pool queue =
     (case concurrency_limit pool of
        None \<Rightarrow> concurrency_limit queue
      | Some a \<Rightarrow>
          (case concurrency_limit queue of None \<Rightarrow> Some a | Some b \<Rightarrow> Some (min a b)))"

section \<open>A concrete schema and database\<close>

text \<open>
  A schema as the earlier migrations may have left it, reduced to what this migration
  needs of it: the tables \<open>deployment\<close> and \<open>flow_run\<close> with their primary keys.
\<close>

definition legacy_schema :: schema where
  "legacy_schema =
     \<lparr>tables =
        [\<lparr>table_name = ''deployment'', columns = id_created_updated,
          constraints = [PrimaryKeyConstraint [''id''] ''pk_deployment'']\<rparr>,
         \<lparr>table_name = ''flow_run'', columns = id_created_updated,
          constraints = [PrimaryKeyConstraint [''id''] ''pk_flow_run'']\<rparr>],
      indexes = []\<rparr>"

text \<open>What the migration makes of that schema.\<close>

definition migrated_schema :: schema where
  "migrated_schema =
     \<lparr>tables =
        [\<lparr>table_name = ''deployment'',
          columns = id_created_updated @
            [\<lparr>col_name = ''worker_pool_queue_id'', col_type = UUID, nullable = True,
              server_default = None\<rparr>],
          constraints =
            [PrimaryKeyConstraint [''id''] ''pk_deployment'',
             ForeignKeyConstraint [''worker_pool_queue_id''] ''worker_pool_queue'' [''id'']
               ''fk_deployment__worker_pool_queue_id__worker_pool_queue'' SET_NULL]\<rparr>,
         \<lparr>table_name = ''flow_run'',
          columns = id_created_updated @
            [\<lparr>col_name = ''worker_pool_queue_id'', col_type = UUID, nullable = True,
              server_default = None\<rparr>],
          constraints =
            [PrimaryKeyConstraint [''id''] ''pk_flow_run'',
             ForeignKeyConstraint [''worker_pool_queue_id''] ''worker_pool_queue'' [''id'']
               ''fk_flow_run__worker_pool_queue_id__worker_pool_queue'' SET_NULL]\<rparr>,
         \<lparr>table_name = ''worker_pool'', columns = worker_pool_columns,
          constraints = worker_pool_constraints @
            [ForeignKeyConstraint [''default_queue_id''] ''worker_pool_queue'' [''id'']
               ''fk_worker_pool__default_queue_id__worker_pool_queue'' RESTRICT]\<rparr>,
         \<lparr>table_name = ''worker'', columns = worker_columns,
          constraints = worker_constraints\<rparr>,
         \<lparr>table_name = ''worker_pool_queue'', columns = worker_pool_queue_columns,
          constraints = worker_pool_queue_constraints\<rparr>],
      indexes =
        [\<lparr>index_name = ''ix_worker_pool__updated'', index_table = ''worker_pool'',
          index_columns = [''updated''], index_unique = False\<rparr>,
         \<lparr>index_name = ''ix_worker_pool__type'', index_table = ''worker_pool'',
          index_columns = [''type''], index_unique = False\<rparr>,
         \<lparr>index_name = ''ix_worker__updated'', index_table = ''worker'',
          index_columns = [''updated''], index_unique = False\<rparr>,
         \<lparr>index_name = ''ix_worker__worker_pool_id'', index_table = ''worker'',
          index_columns = [''worker_pool_id''], index_unique = False\<rparr>,
         \<lparr>index_name = ''ix_worker__worker_pool_id_last_heartbeat_time'',
          index_table = ''worker'',
          index_columns = [''worker_pool_id'', ''last_heartbeat_time''], index_unique = False\<rparr>,
         \<lparr>index_name = ''ix_worker_pool_queue__updated'', index_table = ''worker_pool_queue'',
          index_columns = [''updated''], index_unique = False\<rparr>,
         \<lparr>index_name = ''ix_worker_pool_queue__worker_pool_id_priority'',
          index_table = ''worker_pool_queue'',
          index_columns = [''worker_pool_id'', ''priority''], index_unique = False\<rparr>,
         \<lparr>index_name = ''ix_worker_pool_queue__worker_pool_id'',
          index_table = ''worker_pool_queue'',
          index_columns = [''worker_pool_id''], index_unique = False\<rparr>,
         \<lparr>index_name = ''ix_deployment__worker_pool_queue_id'', index_table = ''deployment'',
          index_columns = [''worker_pool_queue_id''], index_unique = False\<rparr>,
         \<lparr>index_name = ''ix_flow_run__worker_pool_queue_id'', index_table = ''flow_run'',
          index_columns = [''worker_pool_queue_id''], index_unique = False\<rparr>]\<rparr>"

text \<open>
  Two pools; the first has a worker and a queue, which is its default queue, the
  second has a worker.
\<close>

definition pool_row :: "nat \<Rightarrow> string \<Rightarrow> val \<Rightarrow> val \<Rightarrow> row" where
  "pool_row i n limit dq =
     [(''id'', UuidV i), (''created'', TimeV 0), (''updated'', TimeV 0), (''name'', TextV n),
      (''base_job_template'', JsonV ''{}''), (''is_paused'', BoolV False),
      (''concurrency_limit'', limit), (''default_queue_id'', dq)]"

definition worker_row :: "nat \<Rightarrow> string \<Rightarrow> nat \<Rightarrow> row" where
  "worker_row i n pool =
     [(''id'', UuidV i), (''created'', TimeV 0), (''updated'', TimeV 0), (''name'', TextV n),
      (''last_heartbeat_time'', TimeV 0), (''worker_pool_id'', UuidV pool)]"

definition queue_row :: "nat \<Rightarrow> string \<Rightarrow> val \<Rightarrow> nat \<Rightarrow> row" where
  "queue_row i n limit pool =
     [(''id'', UuidV i), (''created'', TimeV 0), (''updated'', TimeV 0), (''name'', TextV n),
      (''is_paused'', BoolV False), (''concurrency_limit'', limit), (''priority'', IntV 1),
      (''worker_pool_id'', UuidV pool)]"

definition two_pools :: database where
  "two_pools =
     (\<lambda>t. [])
       (''worker_pool'' := [pool_row 1 ''a'' (IntV 5) (UuidV 30), pool_row 2 ''b'' NULL NULL],
        ''worker'' := [worker_row 10 ''w'' 1, worker_row 11 ''w'' 2],
        ''worker_pool_queue'' := [queue_row 30 ''default'' NULL 1])"

text \<open>The rows that go when the pool with id 1 is deleted.\<close>

definition gone :: "string \<Rightarrow> row \<Rightarrow> bool" where
  "gone t r \<longleftrightarrow>
     (t = ''worker_pool'' \<and> cell r ''id'' = UuidV 1) \<or>
     (t = ''worker'' \<and> cell r ''worker_pool_id'' = UuidV 1) \<or>
     (t = ''worker_pool_queue'' \<and> cell r ''worker_pool_id'' = UuidV 1)"

definition after_delete :: database where
  "after_delete =
     (\<lambda>t. map (null_out migrated_schema two_pools gone t)
              (filter (\<lambda>r. \<not> gone t r) (two_pools t)))"

section \<open>Lemmas about marking a batch\<close>

lemma find_by_run_id:
  "distinct (map run_id xs) \<Longrightarrow> r \<in> set xs \<Longrightarrow> find (\<lambda>x. run_id x = run_id r) xs = Some r"
  by (induction xs) (auto simp: image_iff)

lemma same_id_same_row:
  "distinct (map run_id xs) \<Longrightarrow> r \<in> set xs \<Longrightarrow> x \<in> set xs \<Longrightarrow> run_id x = run_id r \<longleftrightarrow> x = r"
  by (auto simp: distinct_map dest: inj_onD)

lemma paused_not_failed: "is_paused r \<Longrightarrow> state_type (state r) \<noteq> state_type never_resumed"
  by (simp add: is_paused_def never_resumed_def Failed_def)

lemma set_state_forced_on_paused:
  assumes "distinct (map run_id (rows w))" "r \<in> set (rows w)" "is_paused r"
  shows "set_flow_run_state rules clock w (run_id r) never_resumed True =
           Inr (w\<lparr>ticks := Suc (ticks w),
                  rows := map (\<lambda>x. if x = r then r\<lparr>state := never_resumed,
                                                     state_timestamp := clock (ticks w)\<rparr>
                                    else x) (rows w)\<rparr>)"
proof -
  have m: "map (\<lambda>x. if run_id x = run_id r then x\<lparr>state := never_resumed, state_timestamp := clock (ticks w)\<rparr> else x) (rows w)
         = map (\<lambda>x. if x = r then r\<lparr>state := never_resumed, state_timestamp := clock (ticks w)\<rparr> else x) (rows w)"
    using assms(1,2) by (intro map_cong refl) (auto simp: same_id_same_row)
  have p: "state_type (state r) = PAUSED" using assms(3) by (simp add: is_paused_def)
  show ?thesis
    unfolding set_flow_run_state_def find_by_run_id[OF assms(1,2)]
    using m p by (simp add: never_resumed_def Failed_def)
qed

lemma mark_paused:
  assumes "distinct (map run_id (rows w))" "r \<in> set (rows w)" "is_paused r"
    "pause_timeout (state_details (state r)) = Some t"
  shows "mark_flow_run_as_failed (set_flow_run_state rules clock) clock w r =
     Inr (if t < clock (ticks w)
          then w\<lparr>ticks := Suc (Suc (ticks w)),
                 trace := trace w @ [SetStateCall (run_id r) never_resumed True],
                 rows := map (\<lambda>x. if x = r then r\<lparr>state := never_resumed,
                                                     state_timestamp := clock (Suc (ticks w))\<rparr>
                                   else x) (rows w)\<rparr>
          else w\<lparr>ticks := Suc (ticks w)\<rparr>)"
proof (cases "t < clock (ticks w)")
  case False
  then show ?thesis using assms(4) by (simp add: mark_flow_run_as_failed_def)
next
  case True
  let ?w2 = "w\<lparr>ticks := Suc (ticks w), trace := trace w @ [SetStateCall (run_id r) never_resumed True]\<rparr>"
  have "set_flow_run_state rules clock ?w2 (run_id r) never_resumed True =
           Inr (?w2\<lparr>ticks := Suc (ticks ?w2),
                  rows := map (\<lambda>x. if x = r then r\<lparr>state := never_resumed,
                                                     state_timestamp := clock (ticks ?w2)\<rparr>
                                    else x) (rows ?w2)\<rparr>)"
    by (rule set_state_forced_on_paused) (use assms in simp_all)
  then show ?thesis using True assms(4)
    by (simp add: mark_flow_run_as_failed_def never_resumed_def[symmetric])
qed

lemma failed_row_neq: "is_paused a \<Longrightarrow> a\<lparr>state := never_resumed, state_timestamp := ts\<rparr> \<noteq> a"
proof
  assume p: "is_paused a" and e: "a\<lparr>state := never_resumed, state_timestamp := ts\<rparr> = a"
  have "state (a\<lparr>state := never_resumed, state_timestamp := ts\<rparr>) = never_resumed" by simp
  with e have "state a = never_resumed" by simp
  with p show False by (simp add: is_paused_def never_resumed_def Failed_def)
qed

lemma mark_each_effect:
  assumes "distinct (map run_id (rows w))" "set rs \<subseteq> set (rows w)" "distinct rs"
    "\<forall>r\<in>set rs. is_paused r \<and> pause_timeout (state_details (state r)) \<noteq> None"
  shows "\<exists>w'. mark_each (set_flow_run_state rules clock) clock w rs = Inr w' \<and>
           list_all2 (batch_rel clock (set rs) (set (trace w'))) (rows w) (rows w') \<and>
           (\<exists>cs. trace w' = trace w @ cs \<and> list_all is_call cs \<and>
                 ((\<forall>r\<in>set rs. expired_throughout clock r) \<longrightarrow>
                    cs = map (\<lambda>r. SetStateCall (run_id r) never_resumed True) rs))"
  using assms
proof (induction rs arbitrary: w)
  case Nil
  show ?case by (simp add: list_all2_same batch_rel_def)
next
  case (Cons a rs)
  let ?ssm = "set_flow_run_state rules clock"
  from Cons.prems obtain t where t: "pause_timeout (state_details (state a)) = Some t"
    by auto
  have a: "a \<in> set (rows w)" "is_paused a" "a \<notin> set rs" using Cons.prems by auto
  define a' where "a' = a\<lparr>state := never_resumed, state_timestamp := clock (Suc (ticks w))\<rparr>"
  define hit where "hit \<longleftrightarrow> t < clock (ticks w)"
  define w1 where "w1 = (if hit
          then w\<lparr>ticks := Suc (Suc (ticks w)),
                 trace := trace w @ [SetStateCall (run_id a) never_resumed True],
                 rows := map (\<lambda>x. if x = a then a' else x) (rows w)\<rparr>
          else w\<lparr>ticks := Suc (ticks w)\<rparr>)"
  have m: "mark_flow_run_as_failed ?ssm clock w a = Inr w1"
    unfolding w1_def a'_def hit_def by (rule mark_paused[OF Cons.prems(1) a(1,2) t])
  have ids: "map run_id (rows w1) = map run_id (rows w)"
    by (auto simp: w1_def a'_def)
  have rows1: "rows w1 = map (\<lambda>x. if x = a \<and> hit then a' else x) (rows w)"
    by (simp add: w1_def)
  have sub: "set rs \<subseteq> set (rows w1)"
  proof
    fix x assume x: "x \<in> set rs"
    then have "x \<in> set (rows w)" "x \<noteq> a" using Cons.prems(2) a(3) by auto
    then show "x \<in> set (rows w1)" unfolding rows1 by (auto simp: image_iff)
  qed
  have "\<exists>w'. mark_each ?ssm clock w1 rs = Inr w' \<and>
           list_all2 (batch_rel clock (set rs) (set (trace w'))) (rows w1) (rows w') \<and>
           (\<exists>cs. trace w' = trace w1 @ cs \<and> list_all is_call cs \<and>
                 ((\<forall>r\<in>set rs. expired_throughout clock r) \<longrightarrow>
                    cs = map (\<lambda>r. SetStateCall (run_id r) never_resumed True) rs))"
    by (rule Cons.IH) (use Cons.prems sub ids in auto)
  then obtain w' cs where w': "mark_each ?ssm clock w1 rs = Inr w'"
    and rel: "list_all2 (batch_rel clock (set rs) (set (trace w'))) (rows w1) (rows w')"
    and tr: "trace w' = trace w1 @ cs" "list_all is_call cs"
      "(\<forall>r\<in>set rs. expired_throughout clock r) \<longrightarrow>
                    cs = map (\<lambda>r. SetStateCall (run_id r) never_resumed True) rs"
    by blast
  have a'_notin: "a' \<notin> set rs"
  proof
    assume "a' \<in> set rs"
    then have "a' \<in> set (rows w)" using Cons.prems(2) by auto
    moreover have "run_id a' = run_id a" by (simp add: a'_def)
    ultimately have "a' = a" using same_id_same_row[OF Cons.prems(1) a(1)] by blast
    then show False using failed_row_neq[OF a(2)] by (simp add: a'_def)
  qed
  have wf: "was_failed a a'" using a(2) by (auto simp: was_failed_def a'_def)
  have exp_hit: "expired_throughout clock a \<Longrightarrow> hit"
    using t by (auto simp: expired_throughout_def hit_def)
  have pend_nohit: "pending_throughout clock a \<Longrightarrow> \<not> hit"
    using t by (auto simp: pending_throughout_def hit_def not_less)
  have call: "hit \<Longrightarrow> SetStateCall (run_id a) never_resumed True \<in> set (trace w')"
    by (simp add: tr(1) w1_def)
  have len: "length (rows w) = length (rows w')"
    using list_all2_lengthD[OF rel] by (simp add: rows1)
  have rel': "list_all2 (batch_rel clock (set (a # rs)) (set (trace w'))) (rows w) (rows w')"
  proof (rule list_all2_all_nthI[OF len])
    fix n assume n: "n < length (rows w)"
    let ?r = "rows w ! n" and ?r' = "rows w' ! n"
    have r1: "rows w1 ! n = (if ?r = a \<and> hit then a' else ?r)"
      using n by (simp add: rows1)
    have b: "batch_rel clock (set rs) (set (trace w')) (rows w1 ! n) ?r'"
      using list_all2_nthD[OF rel, of n] n by (simp add: rows1)
    show "batch_rel clock (set (a # rs)) (set (trace w')) ?r ?r'"
    proof (cases "?r = a")
      case True
      have "?r' = rows w1 ! n" using b a(3) a'_notin r1 True
        by (auto simp: batch_rel_def split: if_splits)
      then have "?r' = (if hit then a' else a)" using r1 True by simp
      then show ?thesis using True wf exp_hit pend_nohit call
        by (auto simp: batch_rel_def)
    next
      case False
      then show ?thesis using b r1 by (auto simp: batch_rel_def)
    qed
  qed
  define cs' where
    "cs' = (if hit then [SetStateCall (run_id a) never_resumed True] else []) @ cs"
  have tr': "trace w' = trace w @ cs'"
    by (simp add: tr(1) w1_def cs'_def)
  have calls: "list_all is_call cs'"
    using tr(2) by (simp add: cs'_def)
  have exact: "(\<forall>r\<in>set (a # rs). expired_throughout clock r) \<longrightarrow>
      cs' = map (\<lambda>r. SetStateCall (run_id r) never_resumed True) (a # rs)"
    using tr(3) exp_hit by (auto simp: cs'_def)
  have run: "mark_each ?ssm clock w (a # rs) = Inr w'"
    using m w' by simp
  from tr' calls exact have "\<exists>cs. trace w' = trace w @ cs \<and> list_all is_call cs \<and>
                 ((\<forall>r\<in>set (a # rs). expired_throughout clock r) \<longrightarrow>
                    cs = map (\<lambda>r. SetStateCall (run_id r) never_resumed True) (a # rs))"
    by (intro exI[of _ cs'] conjI)
  with run rel' show ?case by (intro exI[of _ w'] conjI)
qed

lemma was_failed_not_paused: "was_failed r r' \<Longrightarrow> \<not> is_paused r'"
  by (auto simp: was_failed_def is_paused_def never_resumed_def Failed_def)

lemma was_failed_run_id: "was_failed r r' \<Longrightarrow> run_id r' = run_id r"
  by (auto simp: was_failed_def)

lemma batch_rel_weaken: "batch_rel clock S T r r' \<Longrightarrow> r' = r \<or> was_failed r r'"
  by (simp add: batch_rel_def)

lemma evolve_ids:
  "list_all2 (\<lambda>r r'. r' = r \<or> was_failed r r') xs ys \<Longrightarrow> map run_id ys = map run_id xs"
  by (induction rule: list_all2_induct) (auto simp: was_failed_run_id)

lemma evolve_filter_le:
  assumes "list_all2 (\<lambda>r r'. r' = r \<or> was_failed r r') xs ys" "\<And>r. P r \<Longrightarrow> is_paused r"
  shows "length (filter P ys) \<le> length (filter P xs)"
  using assms(1)
proof (induction rule: list_all2_induct)
  case Nil
  show ?case by simp
next
  case (Cons x xs y ys)
  have "P y \<Longrightarrow> P x" using Cons.hyps(1) assms(2) was_failed_not_paused by blast
  then show ?case using Cons.IH by auto
qed

lemma evolve_filter_less:
  assumes "list_all2 (\<lambda>r r'. r' = r \<or> was_failed r r') xs ys" "\<And>r. P r \<Longrightarrow> is_paused r"
    "n < length xs" "P (xs ! n)" "was_failed (xs ! n) (ys ! n)"
  shows "length (filter P ys) < length (filter P xs)"
  using assms(1,3,4,5)
proof (induction arbitrary: n rule: list_all2_induct)
  case Nil
  then show ?case by simp
next
  case (Cons x xs y ys)
  have le: "length (filter P ys) \<le> length (filter P xs)"
    by (rule evolve_filter_le[OF Cons.hyps(2) assms(2)])
  have yx: "P y \<Longrightarrow> P x" using Cons.hyps(1) assms(2) was_failed_not_paused by blast
  show ?case
  proof (cases n)
    case 0
    then have "P x" "\<not> P y" using Cons.prems assms(2) was_failed_not_paused by auto
    then show ?thesis using le by simp
  next
    case (Suc m)
    then have "length (filter P ys) < length (filter P xs)"
      using Cons.IH[of m] Cons.prems by simp
    then show ?thesis using yx by auto
  qed
qed

lemma evolve_store_ok:
  assumes "list_all2 (\<lambda>r r'. r' = r \<or> was_failed r r') (rows w) (rows w')" "store_ok w"
  shows "store_ok w'"
proof -
  have ids: "map run_id (rows w') = map run_id (rows w)" by (rule evolve_ids[OF assms(1)])
  have "pause_timeout (state_details (state r')) \<noteq> None" if "r' \<in> set (rows w')" "is_paused r'" for r'
  proof -
    from that(1) obtain n where n: "n < length (rows w')" "rows w' ! n = r'"
      by (auto simp: in_set_conv_nth)
    have len: "length (rows w) = length (rows w')" by (rule list_all2_lengthD[OF assms(1)])
    have "r' = rows w ! n \<or> was_failed (rows w ! n) r'"
      using list_all2_nthD[OF assms(1), of n] n len by simp
    then have "r' = rows w ! n" using that(2) was_failed_not_paused by blast
    then have "r' \<in> set (rows w)" using n len by simp
    then show ?thesis using assms(2) that(2) by (simp add: store_ok_def)
  qed
  then show ?thesis using assms(2) ids by (simp add: store_ok_def)
qed

lemma batch_effect:
  fixes bs :: nat
  assumes "store_ok w" and runs_def: "runs = select_paused bs w"
  shows "\<exists>w1 cs. mark_each (set_flow_run_state rules clock) clock
                    (w\<lparr>trace := trace w @ [TxBegin, Fetched (length runs)]\<rparr>) runs = Inr w1 \<and>
           list_all2 (batch_rel clock (set runs) (set (trace w1))) (rows w) (rows w1) \<and>
           trace w1 = trace w @ [TxBegin, Fetched (length runs)] @ cs \<and>
           list_all is_call cs \<and>
           ((\<forall>r\<in>set runs. expired_throughout clock r) \<longrightarrow>
                cs = map (\<lambda>r. SetStateCall (run_id r) never_resumed True) runs)"
proof -
  let ?w0 = "w\<lparr>trace := trace w @ [TxBegin, Fetched (length runs)]\<rparr>"
  have d: "distinct (map run_id (rows ?w0))" using assms(1) by (simp add: store_ok_def)
  have sub: "set runs \<subseteq> set (rows ?w0)"
    using set_take_subset[of bs "filter is_paused (rows w)"] by (auto simp: runs_def select_paused_def)
  have dr: "distinct runs"
    using assms(1) by (simp add: runs_def select_paused_def store_ok_def distinct_map)
  have p: "\<forall>r\<in>set runs. is_paused r \<and> pause_timeout (state_details (state r)) \<noteq> None"
  proof
    fix r assume "r \<in> set runs"
    then have "r \<in> set (filter is_paused (rows w))"
      using set_take_subset[of bs "filter is_paused (rows w)"] by (auto simp: runs_def select_paused_def)
    then show "is_paused r \<and> pause_timeout (state_details (state r)) \<noteq> None"
      using assms(1) by (simp add: store_ok_def)
  qed
  from mark_each_effect[OF d sub dr p, of rules clock]
  obtain w1 cs where "mark_each (set_flow_run_state rules clock) clock ?w0 runs = Inr w1"
    "list_all2 (batch_rel clock (set runs) (set (trace w1))) (rows ?w0) (rows w1)"
    "trace w1 = trace ?w0 @ cs" "list_all is_call cs"
    "(\<forall>r\<in>set runs. expired_throughout clock r) \<longrightarrow>
                cs = map (\<lambda>r. SetStateCall (run_id r) never_resumed True) runs"
    by blast
  then show ?thesis by (intro exI[of _ w1] exI[of _ cs]) simp
qed

section \<open>Lemmas about a whole pass\<close>

lemma take_short: "length (take n xs) < n \<Longrightarrow> take n xs = xs"
  by (cases "n \<le> length xs") auto

lemma loop_unfold_ok:
  assumes "mark_each ssm clock (w\<lparr>trace := trace w @ [TxBegin, Fetched (length (select_paused bs w))]\<rparr>)
             (select_paused bs w) = Inr w1"
  shows "run_once_loop ssm clock bs w =
           (if length (select_paused bs w) < bs then Some (Inr (w1\<lparr>trace := trace w1 @ [TxCommit]\<rparr>))
            else run_once_loop ssm clock bs (w1\<lparr>trace := trace w1 @ [TxCommit]\<rparr>))"
  by (subst run_once_loop.simps) (simp add: assms Let_def)

lemma loop_unfold_raise:
  assumes "mark_each ssm clock (w\<lparr>trace := trace w @ [TxBegin, Fetched (length (select_paused bs w))]\<rparr>)
             (select_paused bs w) = Inl (e, w1)"
  shows "run_once_loop ssm clock bs w =
           Some (Inl (e, w1\<lparr>rows := rows w, trace := trace w1 @ [TxRollback]\<rparr>))"
  by (subst run_once_loop.simps) (simp add: assms Let_def)

lemma pass_effect:
  assumes "store_ok w" "length (unexpired clock w) < bs"
  shows "\<exists>w'. run_once_loop (set_flow_run_state rules clock) clock bs w = Some (Inr w') \<and>
           list_all2 (pass_rel clock (set (trace w'))) (rows w) (rows w') \<and>
           set (trace w) \<subseteq> set (trace w')"
  using assms
proof (induction "length (filter is_paused (rows w))" arbitrary: w rule: less_induct)
  case less
  let ?ssm = "set_flow_run_state rules clock"
  define runs where "runs = select_paused bs w"
  from batch_effect[OF less.prems(1) runs_def, of rules clock]
  obtain w1 cs where m: "mark_each ?ssm clock (w\<lparr>trace := trace w @ [TxBegin, Fetched (length runs)]\<rparr>) runs = Inr w1"
    and rel: "list_all2 (batch_rel clock (set runs) (set (trace w1))) (rows w) (rows w1)"
    and tr: "trace w1 = trace w @ [TxBegin, Fetched (length runs)] @ cs"
    by blast
  define w2 where "w2 = w1\<lparr>trace := trace w1 @ [TxCommit]\<rparr>"
  have unf: "run_once_loop ?ssm clock bs w =
           (if length runs < bs then Some (Inr w2) else run_once_loop ?ssm clock bs w2)"
    unfolding w2_def runs_def by (rule loop_unfold_ok) (use m in \<open>simp add: runs_def\<close>)
  have ev: "list_all2 (\<lambda>r r'. r' = r \<or> was_failed r r') (rows w) (rows w2)"
    using list_all2_mono[OF rel] by (simp add: w2_def batch_rel_weaken)
  have len: "length (rows w) = length (rows w2)" by (rule list_all2_lengthD[OF ev])
  have rel2: "list_all2 (batch_rel clock (set runs) (set (trace w2))) (rows w) (rows w2)"
    using list_all2_mono[OF rel] by (auto simp: w2_def batch_rel_def)
  have tsub: "set (trace w) \<subseteq> set (trace w2)" by (auto simp: w2_def tr)
  show ?case
  proof (cases "length runs < bs")
    case True
    then have all: "runs = filter is_paused (rows w)"
      unfolding runs_def select_paused_def by (rule take_short)
    have "list_all2 (pass_rel clock (set (trace w2))) (rows w) (rows w2)"
    proof (rule list_all2_all_nthI[OF len])
      fix n assume n: "n < length (rows w)"
      have "batch_rel clock (set runs) (set (trace w2)) (rows w ! n) (rows w2 ! n)"
        by (rule list_all2_nthD[OF rel2 n])
      moreover have "is_paused (rows w ! n) \<Longrightarrow> rows w ! n \<in> set runs"
        using n by (simp add: all)
      ultimately show "pass_rel clock (set (trace w2)) (rows w ! n) (rows w2 ! n)"
        by (auto simp: batch_rel_def pass_rel_def)
    qed
    then show ?thesis using unf True tsub by simp
  next
    case False
    have lr: "length runs = bs"
      using False by (simp add: runs_def select_paused_def)
    have druns: "distinct runs"
      using less.prems(1) by (simp add: runs_def select_paused_def store_ok_def distinct_map)
    have "\<exists>r\<in>set runs. expired_throughout clock r"
    proof (rule ccontr)
      assume "\<not> (\<exists>r\<in>set runs. expired_throughout clock r)"
      then have "set runs \<subseteq> set (unexpired clock w)"
        using set_take_subset[of bs "filter is_paused (rows w)"]
        by (auto simp: runs_def select_paused_def unexpired_def)
      then have "card (set runs) \<le> card (set (unexpired clock w))"
        by (intro card_mono) auto
      then have "length runs \<le> length (unexpired clock w)"
        using druns card_length[of "unexpired clock w"] by (simp add: distinct_card)
      then show False using less.prems(2) lr by simp
    qed
    then obtain r where r: "r \<in> set runs" "expired_throughout clock r" by blast
    have rp: "r \<in> set (rows w)" "is_paused r"
      using r(1) set_take_subset[of bs "filter is_paused (rows w)"]
      by (auto simp: runs_def select_paused_def)
    then obtain n where n: "n < length (rows w)" "rows w ! n = r"
      by (auto simp: in_set_conv_nth)
    have "batch_rel clock (set runs) (set (trace w2)) (rows w ! n) (rows w2 ! n)"
      by (rule list_all2_nthD[OF rel2 n(1)])
    then have wf: "was_failed (rows w ! n) (rows w2 ! n)"
      using r n by (simp add: batch_rel_def)
    have dec: "length (filter is_paused (rows w2)) < length (filter is_paused (rows w))"
      by (rule evolve_filter_less[OF ev _ n(1) _ wf]) (use rp n in auto)
    have ok2: "store_ok w2" by (rule evolve_store_ok[OF ev less.prems(1)])
    have "length (unexpired clock w2) \<le> length (unexpired clock w)"
      unfolding unexpired_def by (rule evolve_filter_le[OF ev]) simp
    then have un2: "length (unexpired clock w2) < bs" using less.prems(2) by simp
    from less.hyps[OF dec ok2 un2]
    obtain w' where w': "run_once_loop ?ssm clock bs w2 = Some (Inr w')"
      and prel: "list_all2 (pass_rel clock (set (trace w'))) (rows w2) (rows w')"
      and tsub': "set (trace w2) \<subseteq> set (trace w')"
      by blast
    have len': "length (rows w) = length (rows w')"
      using len list_all2_lengthD[OF prel] by simp
    have "list_all2 (pass_rel clock (set (trace w'))) (rows w) (rows w')"
    proof (rule list_all2_all_nthI[OF len'])
      fix n assume n: "n < length (rows w)"
      have b: "batch_rel clock (set runs) (set (trace w2)) (rows w ! n) (rows w2 ! n)"
        by (rule list_all2_nthD[OF rel2 n])
      have p: "pass_rel clock (set (trace w')) (rows w2 ! n) (rows w' ! n)"
        using list_all2_nthD[OF prel, of n] n len by simp
      show "pass_rel clock (set (trace w')) (rows w ! n) (rows w' ! n)"
      proof (cases "rows w2 ! n = rows w ! n")
        case True
        then show ?thesis using p by simp
      next
        case ne: False
        then have wf: "was_failed (rows w ! n) (rows w2 ! n)"
          using b by (auto simp: batch_rel_def)
        then have "\<not> is_paused (rows w2 ! n)" by (rule was_failed_not_paused)
        then have same: "rows w' ! n = rows w2 ! n"
          using p by (auto simp: pass_rel_def was_failed_def)
        have "rows w ! n \<in> set runs" using b ne by (auto simp: batch_rel_def)
        then show ?thesis using b wf same tsub' ne
          by (auto simp: batch_rel_def pass_rel_def)
      qed
    qed
    then show ?thesis using unf False w' tsub tsub' by auto
  qed
qed

section \<open>A pass that never ends\<close>

lemma mark_pending:
  "pending_throughout clock r \<Longrightarrow>
   mark_flow_run_as_failed ssm clock w r = Inr (w\<lparr>ticks := Suc (ticks w)\<rparr>)"
proof -
  assume "pending_throughout clock r"
  then obtain t where t: "pause_timeout (state_details (state r)) = Some t" "\<forall>k. clock k \<le> t"
    by (auto simp: pending_throughout_def)
  from t(2) have "\<not> t < clock (ticks w)" by (simp add: not_less)
  then show ?thesis using t(1) by (simp add: mark_flow_run_as_failed_def Let_def)
qed

lemma mark_each_pending:
  "\<forall>r\<in>set rs. pending_throughout clock r \<Longrightarrow>
   mark_each ssm clock w rs = Inr (w\<lparr>ticks := ticks w + length rs\<rparr>)"
proof (induction rs arbitrary: w)
  case Nil
  show ?case by simp
next
  case (Cons a rs)
  then show ?case by (simp add: mark_pending)
qed

lemma stuck_never_returns:
  assumes "run_once_loop ssm clock bs w = Some y"
  shows "\<not> stuck clock bs w"
proof (rule run_once_loop.raw_induct[where P = "\<lambda>ssm clock bs w y. \<not> stuck clock bs w", OF _ assms])
  fix f :: "set_state_fn \<Rightarrow> clock \<Rightarrow> nat \<Rightarrow> world \<Rightarrow> ((error \<times> world) + world) option"
    and ssm clock bs w y
  assume IH: "\<And>ssm clock bs w y. f ssm clock bs w = Some y \<Longrightarrow> \<not> stuck clock bs w"
    and body: "(let runs = select_paused bs w;
          w0 = w\<lparr>trace := trace w @ [TxBegin, Fetched (length runs)]\<rparr>
      in case mark_each ssm clock w0 runs of
         Inl ew \<Rightarrow>
           Some (Inl (fst ew, snd ew \<lparr>rows := rows w, trace := trace (snd ew) @ [TxRollback]\<rparr>))
         | Inr w1 \<Rightarrow>
             let w2 = w1\<lparr>trace := trace w1 @ [TxCommit]\<rparr>
             in if length runs < bs then Some (Inr w2)
                else f ssm clock bs w2) = Some y"
  show "\<not> stuck clock bs w"
  proof
    assume s: "stuck clock bs w"
    let ?runs = "select_paused bs w"
    let ?w0 = "w\<lparr>trace := trace w @ [TxBegin, Fetched (length ?runs)]\<rparr>"
    let ?w2 = "?w0\<lparr>ticks := ticks ?w0 + length ?runs, trace := trace ?w0 @ [TxCommit]\<rparr>"
    have "mark_each ssm clock ?w0 ?runs = Inr (?w0\<lparr>ticks := ticks ?w0 + length ?runs\<rparr>)"
      by (rule mark_each_pending) (use s in \<open>simp add: stuck_def\<close>)
    moreover have "\<not> length ?runs < bs" using s by (simp add: stuck_def)
    ultimately have "f ssm clock bs ?w2 = Some y"
      using body by (simp add: Let_def)
    then have "\<not> stuck clock bs ?w2" by (rule IH)
    then show False using s by (simp add: stuck_def select_paused_def)
  qed
qed

lemma stuck_diverges: "stuck clock bs w \<Longrightarrow> run_once_loop ssm clock bs w = None"
  using stuck_never_returns[of ssm clock bs w] by (cases "run_once_loop ssm clock bs w") auto

lemma mark_not_yet:
  assumes "pause_timeout (state_details (state r)) = Some t" "clock (ticks w) \<le> t"
  shows "mark_flow_run_as_failed ssm clock w r = Inr (w\<lparr>ticks := Suc (ticks w)\<rparr>)"
  using assms by (simp add: mark_flow_run_as_failed_def Let_def not_less)

lemma mark_each_not_yet:
  assumes "\<forall>r\<in>set rs. \<exists>t. pause_timeout (state_details (state r)) = Some t \<and>
             (\<forall>k. ticks w \<le> k \<and> k < ticks w + length rs \<longrightarrow> clock k \<le> t)"
  shows "mark_each ssm clock w rs = Inr (w\<lparr>ticks := ticks w + length rs\<rparr>)"
  using assms
proof (induction rs arbitrary: w)
  case Nil
  show ?case by simp
next
  case (Cons a rs)
  from Cons.prems obtain t where t: "pause_timeout (state_details (state a)) = Some t"
    "clock (ticks w) \<le> t" by fastforce
  let ?w1 = "w\<lparr>ticks := Suc (ticks w)\<rparr>"
  have m: "mark_flow_run_as_failed ssm clock w a = Inr ?w1"
    by (rule mark_not_yet[where clock = clock and w = w, OF t])
  have "mark_each ssm clock ?w1 rs = Inr (?w1\<lparr>ticks := ticks ?w1 + length rs\<rparr>)"
  proof (rule Cons.IH, rule ballI)
    fix r assume r: "r \<in> set rs"
    with Cons.prems obtain t' where t': "pause_timeout (state_details (state r)) = Some t'"
      "\<forall>k. ticks w \<le> k \<and> k < ticks w + length (a # rs) \<longrightarrow> clock k \<le> t'" by fastforce
    then show "\<exists>t. pause_timeout (state_details (state r)) = Some t \<and>
             (\<forall>k. ticks ?w1 \<le> k \<and> k < ticks ?w1 + length rs \<longrightarrow> clock k \<le> t)"
      by (intro exI[of _ t']) auto
  qed
  then show ?case using m by simp
qed

section \<open>Lemmas about concrete stores\<close>

lemma is_paused_paused_run [simp]: "is_paused (paused_run i t)"
  by (simp add: is_paused_def paused_run_def)

lemma run_id_paused_run [simp]: "run_id (paused_run i t) = i"
  by (simp add: paused_run_def)

lemma timeout_paused_run [simp]:
  "pause_timeout (state_details (state (paused_run i t))) = t"
  by (simp add: paused_run_def)

lemma filter_paused_runs [simp]:
  "filter is_paused (map (\<lambda>i. paused_run i (f i)) xs) = map (\<lambda>i. paused_run i (f i)) xs"
  by (induction xs) simp_all

lemma rows_store_of [simp]: "rows (store_of rs) = rs"
  by (simp add: store_of_def)

lemma trace_store_of [simp]: "trace (store_of rs) = []"
  by (simp add: store_of_def)

section \<open>Lemmas about a pass that raises\<close>

lemma mark_each_append:
  "mark_each ssm clock w (xs @ ys) =
     (case mark_each ssm clock w xs of Inl ew \<Rightarrow> Inl ew | Inr w' \<Rightarrow> mark_each ssm clock w' ys)"
  by (induction xs arbitrary: w) (auto split: sum.splits)

lemma mark_unset:
  "pause_timeout (state_details (state r)) = None \<Longrightarrow>
   mark_flow_run_as_failed ssm clock w r = Inl (TypeError, w\<lparr>ticks := Suc (ticks w)\<rparr>)"
  by (simp add: mark_flow_run_as_failed_def Let_def)

lemma mark_raises_cases:
  assumes "mark_flow_run_as_failed ssm clock w r = Inl (e, w')"
  shows "e = TypeError \<or> (\<exists>w0 i s. ssm w0 i s True = Inl e)"
proof (cases "pause_timeout (state_details (state r))")
  case None
  then show ?thesis using assms by (simp add: mark_unset)
next
  case (Some t)
  then show ?thesis using assms
    by (auto simp: mark_flow_run_as_failed_def Let_def split: if_splits sum.splits)
qed

lemma mark_each_unset_raises:
  assumes "r \<in> set rs" "pause_timeout (state_details (state r)) = None"
  shows "\<exists>e w'. mark_each ssm clock w rs = Inl (e, w') \<and>
           (e = TypeError \<or> (\<exists>w0 i s. ssm w0 i s True = Inl e))"
  using assms(1)
proof (induction rs arbitrary: w)
  case Nil
  then show ?case by simp
next
  case (Cons a rs)
  show ?case
  proof (cases "mark_flow_run_as_failed ssm clock w a")
    case (Inl ew)
    obtain e w' where ew: "ew = (e, w')" by (cases ew)
    show ?thesis using Inl mark_raises_cases[of ssm clock w a e w'] by (simp add: ew)
  next
    case (Inr w1)
    then have "a \<noteq> r" using assms(2) by (auto simp: mark_unset)
    then have "r \<in> set rs" using Cons.prems by simp
    from Cons.IH[OF this, of w1] show ?thesis using Inr by simp
  qed
qed

lemma mark_each_spec_raises_TypeError:
  assumes "distinct (map run_id (rows w))" "set rs \<subseteq> set (rows w)" "distinct rs"
    "\<forall>r\<in>set rs. is_paused r"
    "mark_each (set_flow_run_state rules clock) clock w rs = Inl (e, w')"
  shows "e = TypeError"
  using assms
proof (induction rs arbitrary: w)
  case Nil
  then show ?case by simp
next
  case (Cons a rs)
  have a: "a \<in> set (rows w)" "is_paused a" "a \<notin> set rs" using Cons.prems by auto
  show ?case
  proof (cases "pause_timeout (state_details (state a))")
    case None
    then show ?thesis using Cons.prems(5) by (simp add: mark_unset)
  next
    case (Some t)
    define w1 where "w1 = (if t < clock (ticks w)
          then w\<lparr>ticks := Suc (Suc (ticks w)),
                 trace := trace w @ [SetStateCall (run_id a) never_resumed True],
                 rows := map (\<lambda>x. if x = a then a\<lparr>state := never_resumed,
                                                     state_timestamp := clock (Suc (ticks w))\<rparr>
                                   else x) (rows w)\<rparr>
          else w\<lparr>ticks := Suc (ticks w)\<rparr>)"
    have m: "mark_flow_run_as_failed (set_flow_run_state rules clock) clock w a = Inr w1"
      unfolding w1_def by (rule mark_paused[OF Cons.prems(1) a(1,2) Some])
    have "map run_id (rows w1) = map run_id (rows w)"
      by (auto simp: w1_def)
    then have ids: "distinct (map run_id (rows w1))"
      using Cons.prems(1) by simp
    have sub: "set rs \<subseteq> set (rows w1)"
    proof
      fix x assume "x \<in> set rs"
      then have "x \<in> set (rows w)" "x \<noteq> a" using Cons.prems(2) a(3) by auto
      then show "x \<in> set (rows w1)" by (auto simp: w1_def image_iff)
    qed
    have "mark_each (set_flow_run_state rules clock) clock w1 rs = Inl (e, w')"
      using Cons.prems(5) m by simp
    from Cons.IH[OF ids sub _ _ this] show ?thesis using Cons.prems(3,4) by simp
  qed
qed

section \<open>Lemmas about draining a backlog of expired pauses\<close>

lemma filter_notin_take:
  assumes "distinct xs"
  shows "filter (\<lambda>x. x \<notin> set (take k xs)) xs = drop k xs"
proof -
  define Q where "Q = (\<lambda>x. x \<notin> set (take k xs))"
  have "distinct (take k xs @ drop k xs)" using assms by simp
  then have disj: "set (take k xs) \<inter> set (drop k xs) = {}"
    unfolding distinct_append by blast
  have a: "filter Q (take k xs) = []"
    by (simp add: filter_empty_conv Q_def)
  have b: "filter Q (drop k xs) = drop k xs"
    using disj by (auto simp: filter_id_conv Q_def)
  have "filter Q xs = filter Q (take k xs @ drop k xs)" by simp
  also have "\<dots> = filter Q (take k xs) @ filter Q (drop k xs)" by (rule filter_append)
  also have "\<dots> = drop k xs" by (simp only: a b append_Nil)
  finally show ?thesis by (simp only: Q_def)
qed

lemma filter_after_batch:
  assumes "list_all2 R xs ys"
    "\<And>x y. R x y \<Longrightarrow> (x \<in> S \<longrightarrow> \<not> P y) \<and> (x \<notin> S \<longrightarrow> y = x)"
  shows "filter P ys = filter (\<lambda>x. P x \<and> x \<notin> S) xs"
  using assms(1)
proof (induction rule: list_all2_induct)
  case Nil
  show ?case by simp
next
  case (Cons x xs y ys)
  then show ?case using assms(2)[OF Cons.hyps(1)] by auto
qed

lemma all_expired_batch:
  fixes bs :: nat
  assumes ok: "store_ok w" and all: "unexpired clock w = []"
    and runs_def: "runs = select_paused bs w"
  shows "\<exists>w1 cs. mark_each (set_flow_run_state rules clock) clock
                    (w\<lparr>trace := trace w @ [TxBegin, Fetched (length runs)]\<rparr>) runs = Inr w1 \<and>
           store_ok w1 \<and> unexpired clock w1 = [] \<and>
           length (filter is_paused (rows w1)) = length (filter is_paused (rows w)) - bs \<and>
           trace w1 = trace w @ [TxBegin, Fetched (length runs)] @ cs \<and>
           list_all is_call cs \<and> length cs = length runs"
proof -
  let ?ps = "filter is_paused (rows w)"
  have exp: "expired_throughout clock r" if "r \<in> set (rows w)" "is_paused r" for r
    using all that by (auto simp: unexpired_def filter_empty_conv)
  have runs_sub: "set runs \<subseteq> set ?ps"
    using set_take_subset[of bs ?ps] by (simp add: runs_def select_paused_def)
  have re: "\<forall>r\<in>set runs. expired_throughout clock r"
    using runs_sub exp by auto
  from batch_effect[OF ok runs_def, of rules clock]
  obtain w1 cs where m: "mark_each (set_flow_run_state rules clock) clock
                    (w\<lparr>trace := trace w @ [TxBegin, Fetched (length runs)]\<rparr>) runs = Inr w1"
    and rel: "list_all2 (batch_rel clock (set runs) (set (trace w1))) (rows w) (rows w1)"
    and tr: "trace w1 = trace w @ [TxBegin, Fetched (length runs)] @ cs" "list_all is_call cs"
    and cs: "(\<forall>r\<in>set runs. expired_throughout clock r) \<longrightarrow>
                cs = map (\<lambda>r. SetStateCall (run_id r) never_resumed True) runs"
    by blast
  have lcs: "length cs = length runs" using cs re by simp
  have ev: "list_all2 (\<lambda>r r'. r' = r \<or> was_failed r r') (rows w) (rows w1)"
    using list_all2_mono[OF rel] by (simp add: batch_rel_weaken)
  have ok1: "store_ok w1" by (rule evolve_store_ok[OF ev ok])
  have "length (unexpired clock w1) \<le> length (unexpired clock w)"
    unfolding unexpired_def by (rule evolve_filter_le[OF ev]) simp
  then have un1: "unexpired clock w1 = []" using all by simp
  have d: "distinct ?ps" using ok by (simp add: store_ok_def distinct_map)
  have "filter is_paused (rows w1) = filter (\<lambda>x. is_paused x \<and> x \<notin> set runs) (rows w)"
  proof (rule filter_after_batch[OF rel])
    fix x y assume b: "batch_rel clock (set runs) (set (trace w1)) x y"
    show "(x \<in> set runs \<longrightarrow> \<not> is_paused y) \<and> (x \<notin> set runs \<longrightarrow> y = x)"
      using b re was_failed_not_paused by (auto simp: batch_rel_def)
  qed
  also have "\<dots> = filter (\<lambda>x. x \<notin> set (take bs ?ps)) ?ps"
    by (simp add: runs_def select_paused_def conj_commute)
  also have "\<dots> = drop bs ?ps" by (rule filter_notin_take[OF d])
  finally have cnt: "length (filter is_paused (rows w1)) = length ?ps - bs" by simp
  show ?thesis using m ok1 un1 cnt tr lcs by (intro exI[of _ w1] exI[of _ cs]) simp
qed

lemma all_expired_full_batch:
  assumes ok: "store_ok w" and all: "unexpired clock w = []"
    and full: "bs \<le> length (filter is_paused (rows w))"
  shows "\<exists>w2 cs. run_once_loop (set_flow_run_state rules clock) clock bs w
                  = run_once_loop (set_flow_run_state rules clock) clock bs w2 \<and>
           store_ok w2 \<and> unexpired clock w2 = [] \<and>
           length (filter is_paused (rows w2)) = length (filter is_paused (rows w)) - bs \<and>
           trace w2 = trace w @ [TxBegin, Fetched bs] @ cs @ [TxCommit] \<and>
           list_all is_call cs \<and> length cs = bs"
proof -
  let ?ssm = "set_flow_run_state rules clock"
  define runs where "runs = select_paused bs w"
  have lr: "length runs = bs" using full by (simp add: runs_def select_paused_def)
  from all_expired_batch[OF ok all runs_def, of rules]
  obtain w1 cs where m: "mark_each ?ssm clock
                    (w\<lparr>trace := trace w @ [TxBegin, Fetched (length runs)]\<rparr>) runs = Inr w1"
    and p: "store_ok w1" "unexpired clock w1 = []"
      "length (filter is_paused (rows w1)) = length (filter is_paused (rows w)) - bs"
      "trace w1 = trace w @ [TxBegin, Fetched (length runs)] @ cs"
      "list_all is_call cs" "length cs = length runs"
    by blast
  define w2 where "w2 = w1\<lparr>trace := trace w1 @ [TxCommit]\<rparr>"
  have "run_once_loop ?ssm clock bs w =
           (if length (select_paused bs w) < bs then Some (Inr w2)
            else run_once_loop ?ssm clock bs w2)"
    unfolding w2_def by (rule loop_unfold_ok) (use m in \<open>simp add: runs_def\<close>)
  then have 1: "run_once_loop ?ssm clock bs w = run_once_loop ?ssm clock bs w2"
    using lr by (simp add: runs_def)
  have 2: "store_ok w2" "unexpired clock w2 = []"
    "length (filter is_paused (rows w2)) = length (filter is_paused (rows w)) - bs"
    using p(1,2,3) by (simp_all add: w2_def store_ok_def unexpired_def)
  have 3: "trace w2 = trace w @ [TxBegin, Fetched bs] @ cs @ [TxCommit]"
    using p(4) lr by (simp add: w2_def)
  show ?thesis using 1 2 3 p(5,6) lr by (intro exI[of _ w2] exI[of _ cs]) simp
qed

lemma all_expired_last_batch:
  assumes ok: "store_ok w" and all: "unexpired clock w = []"
    and short: "length (filter is_paused (rows w)) < bs"
  shows "\<exists>w2 cs. run_once_loop (set_flow_run_state rules clock) clock bs w = Some (Inr w2) \<and>
           filter is_paused (rows w2) = [] \<and>
           trace w2 = trace w @ [TxBegin, Fetched (length (filter is_paused (rows w)))] @ cs @ [TxCommit] \<and>
           list_all is_call cs \<and> length cs = length (filter is_paused (rows w))"
proof -
  let ?ssm = "set_flow_run_state rules clock"
  define runs where "runs = select_paused bs w"
  have lr: "length runs = length (filter is_paused (rows w))"
    using short by (simp add: runs_def select_paused_def)
  from all_expired_batch[OF ok all runs_def, of rules]
  obtain w1 cs where m: "mark_each ?ssm clock
                    (w\<lparr>trace := trace w @ [TxBegin, Fetched (length runs)]\<rparr>) runs = Inr w1"
    and p: "length (filter is_paused (rows w1)) = length (filter is_paused (rows w)) - bs"
      "trace w1 = trace w @ [TxBegin, Fetched (length runs)] @ cs"
      "list_all is_call cs" "length cs = length runs"
    by blast
  define w2 where "w2 = w1\<lparr>trace := trace w1 @ [TxCommit]\<rparr>"
  have "run_once_loop ?ssm clock bs w =
           (if length (select_paused bs w) < bs then Some (Inr w2)
            else run_once_loop ?ssm clock bs w2)"
    unfolding w2_def by (rule loop_unfold_ok) (use m in \<open>simp add: runs_def\<close>)
  then have 1: "run_once_loop ?ssm clock bs w = Some (Inr w2)"
    using lr short by (simp add: runs_def)
  have 2: "filter is_paused (rows w2) = []" using p(1) short by (simp add: w2_def)
  have 3: "trace w2 = trace w @ [TxBegin, Fetched (length (filter is_paused (rows w)))] @ cs @ [TxCommit]"
    using p(2) lr by (simp add: w2_def)
  show ?thesis using 1 2 3 p(3,4) lr by (intro exI[of _ w2] exI[of _ cs]) simp
qed

section \<open>Reading the result of a pass\<close>

lemma pass_rel_expired:
  assumes "list_all2 (pass_rel clock T) xs ys" "r \<in> set xs" "is_paused r"
    "expired_throughout clock r"
  shows "SetStateCall (run_id r) never_resumed True \<in> T \<and>
         (\<exists>ts. r\<lparr>state := never_resumed, state_timestamp := ts\<rparr> \<in> set ys)"
proof -
  from assms(2) obtain n where n: "n < length xs" "xs ! n = r"
    by (auto simp: in_set_conv_nth)
  have len: "length xs = length ys" by (rule list_all2_lengthD[OF assms(1)])
  have "pass_rel clock T r (ys ! n)"
    using list_all2_nthD[OF assms(1) n(1)] n(2) by simp
  then have c: "SetStateCall (run_id r) never_resumed True \<in> T"
    and f: "was_failed r (ys ! n)"
    using assms(3,4) by (auto simp: pass_rel_def)
  from f obtain ts where "ys ! n = r\<lparr>state := never_resumed, state_timestamp := ts\<rparr>"
    by (auto simp: was_failed_def)
  then have "r\<lparr>state := never_resumed, state_timestamp := ts\<rparr> \<in> set ys"
    using n(1) len nth_mem[of n ys] by simp
  then show ?thesis using c by blast
qed

lemma pass_rel_pending:
  assumes "list_all2 (pass_rel clock T) xs ys" "r \<in> set xs" "pending_throughout clock r"
  shows "r \<in> set ys"
proof -
  from assms(2) obtain n where n: "n < length xs" "xs ! n = r"
    by (auto simp: in_set_conv_nth)
  have len: "length xs = length ys" by (rule list_all2_lengthD[OF assms(1)])
  have "pass_rel clock T r (ys ! n)"
    using list_all2_nthD[OF assms(1) n(1)] n(2) by simp
  then have "ys ! n = r" using assms(3) by (auto simp: pass_rel_def)
  then show ?thesis using n(1) len nth_mem[of n ys] by simp
qed

lemma no_calls_left: "list_all is_call cs \<Longrightarrow> filter (\<lambda>e. \<not> is_call e) cs = []"
  by (simp add: filter_empty_conv list_all_iff)

lemma all_calls_kept: "list_all is_call cs \<Longrightarrow> filter is_call cs = cs"
  by (simp add: filter_id_conv list_all_iff)

text \<open>The first two candidates of a batch of five, the second of which is refused.\<close>

lemma refused_second_candidate:
  shows "select_paused 200 (store_of five_candidates)
           = [paused_run 1 (Some 0)] @ paused_run 2 (Some 0) # drop 2 five_candidates"
    and "mark_each refusing_second (\<lambda>k. 10)
           ((store_of five_candidates)\<lparr>trace := trace (store_of five_candidates) @
               [TxBegin, Fetched (length ([paused_run 1 (Some 0)] @ paused_run 2 (Some 0)
                                            # drop 2 five_candidates))]\<rparr>)
           [paused_run 1 (Some 0)] = Inr after_first_candidate"
    and "mark_flow_run_as_failed refusing_second (\<lambda>k. 10) after_first_candidate
           (paused_run 2 (Some 0))
           = Inl (InvalidTransition, after_second_candidate)"
proof -
  show "select_paused 200 (store_of five_candidates)
           = [paused_run 1 (Some 0)] @ paused_run 2 (Some 0) # drop 2 five_candidates"
    by (simp add: select_paused_def five_candidates_def)
  have w0: "(store_of five_candidates)\<lparr>trace := trace (store_of five_candidates) @
               [TxBegin, Fetched (length ([paused_run 1 (Some 0)] @ paused_run 2 (Some 0)
                                            # drop 2 five_candidates))]\<rparr>
              = \<lparr>rows = five_candidates, ticks = 0, trace = [TxBegin, Fetched 5]\<rparr>"
    by (simp add: store_of_def five_candidates_def)
  have m1: "mark_flow_run_as_failed refusing_second (\<lambda>k. 10)
             \<lparr>rows = five_candidates, ticks = 0, trace = [TxBegin, Fetched 5]\<rparr>
             (paused_run 1 (Some 0)) = Inr after_first_candidate"
    unfolding refusing_second_def five_candidates_def after_first_candidate_def
    by (simp add: mark_flow_run_as_failed_def Let_def fails_for_def set_flow_run_state_def
        never_resumed_def[symmetric])
       (simp add: never_resumed_def Failed_def paused_run_def)
  show "mark_each refusing_second (\<lambda>k. 10)
           ((store_of five_candidates)\<lparr>trace := trace (store_of five_candidates) @
               [TxBegin, Fetched (length ([paused_run 1 (Some 0)] @ paused_run 2 (Some 0)
                                            # drop 2 five_candidates))]\<rparr>)
           [paused_run 1 (Some 0)] = Inr after_first_candidate"
    unfolding w0 by (simp only: mark_each.simps m1 sum.case)
  show "mark_flow_run_as_failed refusing_second (\<lambda>k. 10) after_first_candidate
           (paused_run 2 (Some 0))
           = Inl (InvalidTransition, after_second_candidate)"
    unfolding refusing_second_def five_candidates_def after_first_candidate_def
      after_second_candidate_def
    by (simp add: mark_flow_run_as_failed_def Let_def fails_for_def never_resumed_def[symmetric])
qed

lemma loop_aborts:
  assumes "select_paused bs w = before @ r # rest"
    and "mark_each ssm clock
           (w\<lparr>trace := trace w @ [TxBegin, Fetched (length (before @ r # rest))]\<rparr>) before = Inr w1"
    and "mark_flow_run_as_failed ssm clock w1 r = Inl (e, w2)"
  shows "run_once_loop ssm clock bs w
           = Some (Inl (e, w2\<lparr>rows := rows w, trace := trace w2 @ [TxRollback]\<rparr>))"
proof -
  have "mark_each ssm clock
          (w\<lparr>trace := trace w @ [TxBegin, Fetched (length (select_paused bs w))]\<rparr>)
          (select_paused bs w) = Inl (e, w2)"
    unfolding assms(1) using assms(2,3) by (simp add: mark_each_append)
  from loop_unfold_raise[OF this] show ?thesis .
qed

section \<open>Lemmas about the loop service\<close>

lemma run_loop_from:
  assumes ok: "\<forall>j<k. run_once_fn (ws j) = Some (Inr (ws (Suc j)))"
    and bad: "run_once_fn (ws k) = Some (Inl (e, w'))"
    and more: "case loops of None \<Rightarrow> True | Some n \<Rightarrow> k < n"
    and j: "j \<le> k"
  shows "run_loop run_once_fn describe loops
           \<lparr>inner = ws j, iterations = j, service_log = lg, is_running = True\<rparr>
         = Some \<lparr>inner = w', iterations = Suc k,
                 service_log = lg @ [(ERROR, describe e)], is_running = False\<rparr>"
  using j
proof (induction "k - j" arbitrary: j)
  case 0
  then have jk: "j = k" by simp
  show ?case unfolding jk using more
    by (subst run_loop.simps) (simp add: bad split: option.splits)
next
  case (Suc d)
  then have jk: "j < k" by simp
  have step: "run_once_fn (ws j) = Some (Inr (ws (Suc j)))" using ok jk by simp
  have "run_loop run_once_fn describe loops
           \<lparr>inner = ws (Suc j), iterations = Suc j, service_log = lg, is_running = True\<rparr>
         = Some \<lparr>inner = w', iterations = Suc k,
                 service_log = lg @ [(ERROR, describe e)], is_running = False\<rparr>"
    by (rule Suc.hyps(1)) (use Suc.hyps(2) jk in auto)
  then show ?case using more jk
    by (subst run_loop.simps) (simp add: step split: option.splits)
qed

section \<open>Lemmas about the migration\<close>

lemma run_ops_append:
  "run_ops (xs @ ys) s = (case run_ops xs s of Inl e \<Rightarrow> Inl e | Inr s' \<Rightarrow> run_ops ys s')"
  by (induction xs arbitrary: s) (auto split: sum.splits)

lemma run_ops_appendE:
  assumes "run_ops (xs @ ys) s = Inr s'"
  obtains s1 where "run_ops xs s = Inr s1" "run_ops ys s1 = Inr s'"
  using assms by (auto simp: run_ops_append split: sum.splits)

lemma run_ops_ConsE:
  assumes "run_ops (x # ys) s = Inr s'"
  obtains s1 where "apply_op x s = Inr s1" "run_ops ys s1 = Inr s'"
  using assms by (auto split: sum.splits)

lemma tables_named_alter_other:
  assumes "t' \<noteq> t" "\<And>tb. table_name (f tb) = table_name tb"
  shows "tables_named (alter_table t' f s) t = tables_named s t"
proof -
  have "filter (\<lambda>tb. table_name tb = t) (map (\<lambda>tb. if table_name tb = t' then f tb else tb) xs)
        = filter (\<lambda>tb. table_name tb = t) xs" for xs
    using assms(1) by (induction xs) (auto simp: assms(2))
  then show ?thesis by (simp add: tables_named_def alter_table_def)
qed

lemma tables_named_alter_same:
  assumes "\<And>tb. table_name (f tb) = table_name tb"
  shows "tables_named (alter_table t f s) t = map f (tables_named s t)"
proof -
  have "filter (\<lambda>tb. table_name tb = t) (map (\<lambda>tb. if table_name tb = t then f tb else tb) xs)
        = map f (filter (\<lambda>tb. table_name tb = t) xs)" for xs
    by (induction xs) (auto simp: assms)
  then show ?thesis by (simp add: tables_named_def alter_table_def)
qed

lemma apply_op_keeps:
  assumes "apply_op op s = Inr s'" "\<not> touches op t"
  shows "tables_named s' t = tables_named s t"
proof (cases op)
  case (CreateTable n cols cons)
  then show ?thesis using assms
    by (auto simp: tables_named_def split: if_splits option.splits)
next
  case (CreateIndex nm t' cols uq)
  then show ?thesis using assms
    by (auto simp: tables_named_def split: if_splits option.splits)
next
  case (AddColumn t' col)
  then show ?thesis using assms
    by (auto simp: tables_named_alter_other split: if_splits)
next
  case (CreateForeignKey nm t' rt cols rcols od)
  then show ?thesis using assms
    by (auto simp: tables_named_alter_other split: if_splits option.splits)
qed

lemma run_ops_keeps:
  assumes "run_ops ops s = Inr s'" "list_all (\<lambda>op. \<not> touches op t) ops"
  shows "tables_named s' t = tables_named s t"
  using assms
proof (induction ops arbitrary: s)
  case Nil
  then show ?case by simp
next
  case (Cons op ops)
  from Cons.prems(1) obtain s1 where s1: "apply_op op s = Inr s1" "run_ops ops s1 = Inr s'"
    by (rule run_ops_ConsE)
  have "tables_named s1 t = tables_named s t"
    by (rule apply_op_keeps[OF s1(1)]) (use Cons.prems(2) in simp)
  moreover have "tables_named s' t = tables_named s1 t"
    by (rule Cons.IH[OF s1(2)]) (use Cons.prems(2) in simp)
  ultimately show ?case by simp
qed

lemma create_table_named:
  assumes "apply_op (CreateTable n cols cons) s = Inr s'"
  shows "tables_named s' n = [\<lparr>table_name = n, columns = cols, constraints = cons\<rparr>]"
proof -
  from assms have n: "n \<notin> set (table_names s)"
    and s': "s' = s\<lparr>tables := tables s @ [\<lparr>table_name = n, columns = cols, constraints = cons\<rparr>]\<rparr>"
    by (auto split: if_splits option.splits)
  from n have "filter (\<lambda>tb. table_name tb = n) (tables s) = []"
    by (auto simp: table_names_def filter_empty_conv)
  then show ?thesis by (simp add: s' tables_named_def)
qed

lemma create_foreign_key_named:
  assumes "apply_op (CreateForeignKey nm t rt cols rcols od) s = Inr s'"
  shows "tables_named s' t =
           map (\<lambda>tb. tb\<lparr>constraints := constraints tb @ [ForeignKeyConstraint cols rt rcols nm od]\<rparr>)
               (tables_named s t)"
proof -
  from assms have "s' = alter_table t
       (\<lambda>tb. tb\<lparr>constraints := constraints tb @ [ForeignKeyConstraint cols rt rcols nm od]\<rparr>) s"
    by (auto split: if_splits option.splits)
  then show ?thesis by (simp add: tables_named_alter_same)
qed

lemma created_table_stays:
  assumes "run_ops (pre @ CreateTable n cols cons # post) s = Inr s'"
    and "list_all (\<lambda>op. \<not> touches op n) post"
  shows "tables_named s' n = [\<lparr>table_name = n, columns = cols, constraints = cons\<rparr>]"
proof -
  from assms(1) obtain s1 where s1: "run_ops (CreateTable n cols cons # post) s1 = Inr s'"
    by (rule run_ops_appendE)
  then obtain s2 where s2: "apply_op (CreateTable n cols cons) s1 = Inr s2" "run_ops post s2 = Inr s'"
    by (rule run_ops_ConsE)
  show ?thesis
    using run_ops_keeps[OF s2(2) assms(2)] create_table_named[OF s2(1)] by simp
qed

lemma worker_table_after_upgrade:
  assumes "upgrade base = Inr sch"
  shows "tables_named sch ''worker''
           = [\<lparr>table_name = ''worker'', columns = worker_columns, constraints = worker_constraints\<rparr>]"
proof (rule created_table_stays)
  show "run_ops (create_worker_pool @ CreateTable ''worker'' worker_columns worker_constraints
          # (tl create_worker @ create_worker_pool_queue @ alter_worker_pool @ alter_deployment
             @ alter_flow_run)) base = Inr sch"
    using assms by (simp add: upgrade_def upgrade_ops_def create_worker_def)
  show "list_all (\<lambda>op. \<not> touches op ''worker'')
          (tl create_worker @ create_worker_pool_queue @ alter_worker_pool @ alter_deployment
             @ alter_flow_run)"
    by (simp add: create_worker_def create_worker_pool_queue_def alter_worker_pool_def
        alter_deployment_def alter_flow_run_def)
qed

lemma worker_pool_queue_table_after_upgrade:
  assumes "upgrade base = Inr sch"
  shows "tables_named sch ''worker_pool_queue''
           = [\<lparr>table_name = ''worker_pool_queue'', columns = worker_pool_queue_columns,
               constraints = worker_pool_queue_constraints\<rparr>]"
proof (rule created_table_stays)
  show "run_ops ((create_worker_pool @ create_worker)
          @ CreateTable ''worker_pool_queue'' worker_pool_queue_columns worker_pool_queue_constraints
          # (tl create_worker_pool_queue @ alter_worker_pool @ alter_deployment
             @ alter_flow_run)) base = Inr sch"
    using assms by (simp add: upgrade_def upgrade_ops_def create_worker_pool_queue_def)
  show "list_all (\<lambda>op. \<not> touches op ''worker_pool_queue'')
          (tl create_worker_pool_queue @ alter_worker_pool @ alter_deployment
             @ alter_flow_run)"
    by (simp add: create_worker_pool_queue_def alter_worker_pool_def
        alter_deployment_def alter_flow_run_def)
qed

lemma worker_pool_table_after_upgrade:
  assumes "upgrade base = Inr sch"
  shows "tables_named sch ''worker_pool''
           = [\<lparr>table_name = ''worker_pool'', columns = worker_pool_columns,
               constraints = worker_pool_constraints @
                 [ForeignKeyConstraint [''default_queue_id''] ''worker_pool_queue'' [''id'']
                    ''fk_worker_pool__default_queue_id__worker_pool_queue'' RESTRICT]\<rparr>]"
proof -
  have "run_ops ((create_worker_pool @ create_worker @ create_worker_pool_queue)
          @ (alter_worker_pool @ alter_deployment @ alter_flow_run)) base = Inr sch"
    using assms by (simp add: upgrade_def upgrade_ops_def)
  then obtain s1 where s1: "run_ops (create_worker_pool @ create_worker @ create_worker_pool_queue) base = Inr s1"
    and r1: "run_ops (alter_worker_pool @ alter_deployment @ alter_flow_run) s1 = Inr sch"
    by (rule run_ops_appendE)
  have t1: "tables_named s1 ''worker_pool''
           = [\<lparr>table_name = ''worker_pool'', columns = worker_pool_columns,
               constraints = worker_pool_constraints\<rparr>]"
  proof (rule created_table_stays)
    show "run_ops ([] @ CreateTable ''worker_pool'' worker_pool_columns worker_pool_constraints
            # (tl create_worker_pool @ create_worker @ create_worker_pool_queue)) base = Inr s1"
      using s1 by (simp add: create_worker_pool_def)
    show "list_all (\<lambda>op. \<not> touches op ''worker_pool'')
            (tl create_worker_pool @ create_worker @ create_worker_pool_queue)"
      by (simp add: create_worker_pool_def create_worker_def create_worker_pool_queue_def)
  qed
  from r1 obtain s2 where s2: "apply_op (CreateForeignKey ''fk_worker_pool__default_queue_id__worker_pool_queue''
        ''worker_pool'' ''worker_pool_queue'' [''default_queue_id''] [''id''] RESTRICT) s1 = Inr s2"
    and r2: "run_ops (alter_deployment @ alter_flow_run) s2 = Inr sch"
    by (auto simp: alter_worker_pool_def split: sum.splits)
  have t2: "tables_named s2 ''worker_pool''
           = [\<lparr>table_name = ''worker_pool'', columns = worker_pool_columns,
               constraints = worker_pool_constraints @
                 [ForeignKeyConstraint [''default_queue_id''] ''worker_pool_queue'' [''id'']
                    ''fk_worker_pool__default_queue_id__worker_pool_queue'' RESTRICT]\<rparr>]"
    using create_foreign_key_named[OF s2] t1 by simp
  have "tables_named sch ''worker_pool'' = tables_named s2 ''worker_pool''"
    by (rule run_ops_keeps[OF r2]) (simp add: alter_deployment_def alter_flow_run_def)
  then show ?thesis using t2 by simp
qed

section \<open>Lemmas about constraints and statements\<close>

lemma table_ok_of_named:
  assumes "valid s db" "tables_named s t = [tb]"
  shows "table_ok s db tb \<and> table_name tb = t"
proof -
  have "tb \<in> set (tables_named s t)" using assms(2) by simp
  then have "tb \<in> set (tables s)" "table_name tb = t" by (auto simp: tables_named_def)
  then show ?thesis using assms(1) by (auto simp: valid_def list_all_iff)
qed

lemma not_null_cell:
  assumes "not_null_ok tb rs" "c \<in> set (columns tb)" "\<not> nullable c" "r \<in> set rs"
  shows "cell r (col_name c) \<noteq> NULL"
  using assms by (auto simp: not_null_ok_def list_all_iff)

lemma unique_distinct:
  assumes "unique_ok cols rs" "\<forall>r\<in>set rs. NULL \<notin> set (key_of cols r)"
  shows "distinct (map (key_of cols) rs)"
proof -
  have "filter (\<lambda>k. NULL \<notin> set k) (map (key_of cols) rs) = map (key_of cols) rs"
    using assms(2) by (auto simp: filter_id_conv)
  then show ?thesis using assms(1) by (simp add: unique_ok_def)
qed

lemma checked_valid: "checked s db = Inr db' \<Longrightarrow> valid s db'"
  by (auto simp: checked_def split: if_splits)

lemma exec_valid: "exec s st db = Inr db' \<Longrightarrow> valid s db'"
  by (cases st) (auto simp: delete_from_def Let_def dest: checked_valid split: if_splits)

lemma exec_all_valid: "valid s db \<Longrightarrow> valid s (exec_all s sts db)"
proof (induction sts arbitrary: db)
  case Nil
  then show ?case by (simp add: exec_all_def)
next
  case (Cons st sts)
  have v: "valid s (case exec s st db of Inl e \<Rightarrow> db | Inr d' \<Rightarrow> d')"
    using Cons.prems exec_valid[of s st db] by (auto split: sum.splits)
  have "exec_all s (st # sts) db = exec_all s sts (case exec s st db of Inl e \<Rightarrow> db | Inr d' \<Rightarrow> d')"
    by (simp add: exec_all_def)
  then show ?case using Cons.IH[OF v] by simp
qed

lemma constraint_ok_empty: "constraint_ok db [] c"
  by (cases c) (simp_all add: unique_ok_def)

lemma valid_empty: "valid s (\<lambda>t. [])"
  by (simp add: valid_def table_ok_def not_null_ok_def unique_ok_def list_all_iff
      constraint_ok_empty)

lemma distinct_inner: "distinct (map f ys) \<Longrightarrow> distinct ys"
  by (simp add: distinct_map)

lemma distinct_pairs_of_keys:
  "distinct (map (key_of [a, b]) rs) \<Longrightarrow> distinct (map (\<lambda>r. (cell r a, cell r b)) rs)"
proof -
  assume d: "distinct (map (key_of [a, b]) rs)"
  have "map (key_of [a, b]) rs = map (\<lambda>p. [fst p, snd p]) (map (\<lambda>r. (cell r a, cell r b)) rs)"
    by (simp add: key_of_def)
  with d have "distinct (map (\<lambda>p. [fst p, snd p]) (map (\<lambda>r. (cell r a, cell r b)) rs))" by simp
  then show ?thesis by (rule distinct_inner)
qed

lemma distinct_singles_of_keys:
  "distinct (map (key_of [a]) rs) \<Longrightarrow> distinct (map (\<lambda>r. cell r a) rs)"
proof -
  assume d: "distinct (map (key_of [a]) rs)"
  have "map (key_of [a]) rs = map (\<lambda>v. [v]) (map (\<lambda>r. cell r a) rs)"
    by (simp add: key_of_def)
  with d have "distinct (map (\<lambda>v. [v]) (map (\<lambda>r. cell r a) rs))" by simp
  then show ?thesis by (rule distinct_inner)
qed

lemma pool_names_distinct:
  assumes "upgrade base = Inr sch" "valid sch db"
  shows "distinct (map (\<lambda>r. cell r ''name'') (db ''worker_pool''))"
proof -
  let ?tb = "\<lparr>table_name = ''worker_pool'', columns = worker_pool_columns,
               constraints = worker_pool_constraints @
                 [ForeignKeyConstraint [''default_queue_id''] ''worker_pool_queue'' [''id'']
                    ''fk_worker_pool__default_queue_id__worker_pool_queue'' RESTRICT]\<rparr>"
  have ok: "table_ok sch db ?tb"
    using table_ok_of_named[OF assms(2) worker_pool_table_after_upgrade[OF assms(1)]] by simp
  have u: "unique_ok [''name''] (db ''worker_pool'')"
    using ok by (simp add: table_ok_def worker_pool_constraints_def)
  have nn: "not_null_ok ?tb (db ''worker_pool'')" using ok by (simp add: table_ok_def)
  have "cell r ''name'' \<noteq> NULL" if "r \<in> set (db ''worker_pool'')" for r
    using not_null_cell[OF nn _ _ that,
        of "\<lparr>col_name = ''name'', col_type = String, nullable = False, server_default = None\<rparr>"]
    by (simp add: worker_pool_columns_def)
  then have "\<forall>r\<in>set (db ''worker_pool''). NULL \<notin> set (key_of [''name''] r)"
    by (fastforce simp: key_of_def)
  from unique_distinct[OF u this] show ?thesis by (rule distinct_singles_of_keys)
qed

lemma pool_and_name_distinct:
  assumes ok: "table_ok sch db \<lparr>table_name = t, columns = cols, constraints = cons\<rparr>"
    and u: "UniqueConstraint [''worker_pool_id'', ''name''] nm \<in> set cons"
    and c1: "\<lparr>col_name = ''name'', col_type = String, nullable = False, server_default = None\<rparr>
               \<in> set cols"
    and c2: "\<lparr>col_name = ''worker_pool_id'', col_type = UUID, nullable = False,
              server_default = None\<rparr> \<in> set cols"
  shows "distinct (map (\<lambda>r. (cell r ''worker_pool_id'', cell r ''name'')) (db t))"
proof -
  let ?tb = "\<lparr>table_name = t, columns = cols, constraints = cons\<rparr>"
  have "constraint_ok db (db t) (UniqueConstraint [''worker_pool_id'', ''name''] nm)"
    using ok u by (auto simp: table_ok_def list_all_iff)
  then have uq: "unique_ok [''worker_pool_id'', ''name''] (db t)" by simp
  have nn: "not_null_ok ?tb (db t)" using ok by (simp add: table_ok_def)
  have "cell r ''name'' \<noteq> NULL \<and> cell r ''worker_pool_id'' \<noteq> NULL" if "r \<in> set (db t)" for r
    using not_null_cell[OF nn _ _ that,
        of "\<lparr>col_name = ''name'', col_type = String, nullable = False, server_default = None\<rparr>"]
      not_null_cell[OF nn _ _ that,
        of "\<lparr>col_name = ''worker_pool_id'', col_type = UUID, nullable = False, server_default = None\<rparr>"]
      c1 c2 by simp
  then have "\<forall>r\<in>set (db t). NULL \<notin> set (key_of [''worker_pool_id'', ''name''] r)"
    by (fastforce simp: key_of_def)
  from unique_distinct[OF uq this] show ?thesis by (rule distinct_pairs_of_keys)
qed

lemma worker_identity_distinct:
  assumes "upgrade base = Inr sch" "valid sch db"
  shows "distinct (map (\<lambda>r. (cell r ''worker_pool_id'', cell r ''name'')) (db ''worker''))"
proof (rule pool_and_name_distinct)
  show "table_ok sch db \<lparr>table_name = ''worker'', columns = worker_columns,
                          constraints = worker_constraints\<rparr>"
    using table_ok_of_named[OF assms(2) worker_table_after_upgrade[OF assms(1)]] by simp
  show "UniqueConstraint [''worker_pool_id'', ''name''] ''uq_worker__worker_pool_id_name''
          \<in> set worker_constraints"
    by (simp add: worker_constraints_def)
  show "\<lparr>col_name = ''name'', col_type = String, nullable = False, server_default = None\<rparr>
               \<in> set worker_columns"
    by (simp add: worker_columns_def)
  show "\<lparr>col_name = ''worker_pool_id'', col_type = UUID, nullable = False,
              server_default = None\<rparr> \<in> set worker_columns"
    by (simp add: worker_columns_def)
qed

lemma queue_identity_distinct:
  assumes "upgrade base = Inr sch" "valid sch db"
  shows "distinct (map (\<lambda>r. (cell r ''worker_pool_id'', cell r ''name'')) (db ''worker_pool_queue''))"
proof (rule pool_and_name_distinct)
  show "table_ok sch db \<lparr>table_name = ''worker_pool_queue'', columns = worker_pool_queue_columns,
                          constraints = worker_pool_queue_constraints\<rparr>"
    using table_ok_of_named[OF assms(2) worker_pool_queue_table_after_upgrade[OF assms(1)]] by simp
  show "UniqueConstraint [''worker_pool_id'', ''name''] ''uq_worker_pool_queue__worker_pool_id_name''
          \<in> set worker_pool_queue_constraints"
    by (simp add: worker_pool_queue_constraints_def)
  show "\<lparr>col_name = ''name'', col_type = String, nullable = False, server_default = None\<rparr>
               \<in> set worker_pool_queue_columns"
    by (simp add: worker_pool_queue_columns_def)
  show "\<lparr>col_name = ''worker_pool_id'', col_type = UUID, nullable = False,
              server_default = None\<rparr> \<in> set worker_pool_queue_columns"
    by (simp add: worker_pool_queue_columns_def)
qed

section \<open>Lemmas about deleting rows\<close>

lemma cascade_step_incr: "D t r \<Longrightarrow> cascade_step s db D t r"
  by (simp add: cascade_step_def)

lemma cascade_steps_incr: "D t r \<Longrightarrow> ((cascade_step s db) ^^ n) D t r"
  by (induction n) (auto intro: cascade_step_incr)

lemma cascade_step_child:
  assumes "(ct, cols, rt, rcols, CASCADE) \<in> set (foreign_keys s)"
    and "parent \<in> set (db rt)" "D rt parent" "refers cols rcols child parent"
  shows "cascade_step s db D ct child"
proof -
  have "list_ex (\<lambda>p. D rt p \<and> refers cols rcols child p) (db rt)"
    using assms(2,3,4) by (auto simp: list_ex_iff)
  then show ?thesis using assms(1)
    by (auto simp: cascade_step_def list_ex_iff intro!: bexI[of _ "(ct, cols, rt, rcols, CASCADE)"])
qed

lemma doomed_child:
  assumes fk: "(ct, cols, t, rcols, CASCADE) \<in> set (foreign_keys s)"
    and parent: "parent \<in> set (db t)" "p parent"
    and ref: "refers cols rcols child parent"
    and n: "0 < row_count s db"
  shows "doomed s db t p ct child"
proof -
  from n obtain m where m: "row_count s db = Suc m" by (cases "row_count s db") auto
  have "((cascade_step s db) ^^ m) (\<lambda>t' r. t' = t \<and> p r) t parent"
    by (rule cascade_steps_incr) (simp add: parent(2))
  from cascade_step_child[where D = "((cascade_step s db) ^^ m) (\<lambda>t' r. t' = t \<and> p r)"
      and s = s and db = db and rt = t and ct = ct and cols = cols and rcols = rcols
      and parent = parent and child = child, OF fk parent(1) this ref]
  show ?thesis by (simp add: doomed_def m)
qed

lemma row_count_pos:
  assumes "tables_named s t = [tb]" "r \<in> set (db t)"
  shows "0 < row_count s db"
proof -
  have "tb \<in> set (tables_named s t)" using assms(1) by simp
  then have tb: "tb \<in> set (tables s)" "table_name tb = t" by (auto simp: tables_named_def)
  have "length (db t) \<in> set (map (\<lambda>tb. length (db (table_name tb))) (tables s))"
    using tb by force
  then have "length (db t) \<le> row_count s db"
    unfolding row_count_def by (intro member_le_sum_list) auto
  moreover have "0 < length (db t)" using assms(2) by (cases "db t") auto
  ultimately show ?thesis by linarith
qed

lemma foreign_keys_of_table:
  "filter (\<lambda>fk. fst fk = t) (foreign_keys s)
     = concat (map (\<lambda>tb. List.map_filter (foreign_key_of t) (constraints tb)) (tables_named s t))"
proof -
  have a: "filter (\<lambda>fk. fst fk = t) (List.map_filter (foreign_key_of t') cs)
        = (if t' = t then List.map_filter (foreign_key_of t') cs else [])" for t' cs
  proof (induction cs)
    case Nil
    show ?case by (simp add: List.map_filter_simps)
  next
    case (Cons c cs)
    then show ?case by (cases c) (auto simp: List.map_filter_simps)
  qed
  have "filter (\<lambda>fk. fst fk = t)
          (concat (map (\<lambda>tb. List.map_filter (foreign_key_of (table_name tb)) (constraints tb)) tbs))
        = concat (map (\<lambda>tb. List.map_filter (foreign_key_of t) (constraints tb))
                   (filter (\<lambda>tb. table_name tb = t) tbs))" for tbs
    by (induction tbs) (auto simp: a)
  then show ?thesis by (simp add: foreign_keys_def tables_named_def)
qed

lemma foreign_key_member:
  assumes "tables_named s t = [tb]" "ForeignKeyConstraint cols rt rcols nm od \<in> set (constraints tb)"
  shows "(t, cols, rt, rcols, od) \<in> set (foreign_keys s)"
proof -
  have "tb \<in> set (tables_named s t)" using assms(1) by simp
  then have tb: "tb \<in> set (tables s)" "table_name tb = t" by (auto simp: tables_named_def)
  have "(t, cols, rt, rcols, od) \<in> set (List.map_filter (foreign_key_of t) (constraints tb))"
    using assms(2) by (force simp: List.map_filter_def)
  then show ?thesis using tb by (force simp: foreign_keys_def)
qed

lemma null_out_unchanged:
  assumes "\<forall>fk\<in>set (filter (\<lambda>fk. fst fk = t) (foreign_keys s)). snd (snd (snd (snd fk))) \<noteq> SET_NULL"
  shows "null_out s db D t r = r"
proof -
  have "fold (\<lambda>(ct, cols, rt, rcols, od) r'.
             if ct = t \<and> od = SET_NULL \<and> list_ex (\<lambda>p. D rt p \<and> refers cols rcols r p) (db rt)
             then map (\<lambda>c. (c, NULL)) cols @ r' else r') fks r0 = r0"
    if "\<forall>fk\<in>set fks. fst fk = t \<longrightarrow> snd (snd (snd (snd fk))) \<noteq> SET_NULL" for fks r0
    using that by (induction fks arbitrary: r0) auto
  from this[of "foreign_keys s" r] assms show ?thesis by (auto simp: null_out_def)
qed

lemma delete_result:
  assumes "exec s (Delete t p) db = Inr db'"
  shows "db' = (\<lambda>t'. map (null_out s db (doomed s db t p) t')
                        (filter (\<lambda>r. \<not> doomed s db t p t' r) (db t')))"
    and "valid s db'"
  using assms by (auto simp: delete_from_def Let_def checked_def split: if_splits)

lemma children_are_deleted:
  assumes named: "tables_named s ct = [\<lparr>table_name = ct, columns = cols, constraints = cons\<rparr>]"
    and only: "List.map_filter (foreign_key_of ct) cons = [(ct, [fkcol], t, [''id''], CASCADE)]"
    and nn: "\<lparr>col_name = fkcol, col_type = UUID, nullable = False, server_default = None\<rparr>
               \<in> set cols"
    and parent_table: "tables_named s t = [ptb]"
    and del: "exec s (Delete t p) db = Inr db'"
    and parent: "parent \<in> set (db t)" "p parent"
    and child: "child \<in> set (db' ct)"
  shows "cell child fkcol \<noteq> cell parent ''id''"
proof
  assume eq: "cell child fkcol = cell parent ''id''"
  let ?D = "doomed s db t p"
  have fks: "filter (\<lambda>fk. fst fk = ct) (foreign_keys s) = [(ct, [fkcol], t, [''id''], CASCADE)]"
    by (simp add: foreign_keys_of_table named only)
  have "null_out s db ?D ct r = r" for r
    by (rule null_out_unchanged) (simp add: fks)
  then have same: "null_out s db ?D ct = id" by (intro ext) simp
  have db': "db' ct = filter (\<lambda>r. \<not> ?D ct r) (db ct)"
    by (simp add: delete_result(1)[OF del] same)
  then have c: "child \<in> set (db ct)" "\<not> ?D ct child" using child by auto
  have ok: "table_ok s db' \<lparr>table_name = ct, columns = cols, constraints = cons\<rparr>"
    using table_ok_of_named[OF delete_result(2)[OF del] named] by simp
  then have "not_null_ok \<lparr>table_name = ct, columns = cols, constraints = cons\<rparr> (db' ct)"
    by (simp add: table_ok_def)
  from not_null_cell[OF this _ _ child, of "\<lparr>col_name = fkcol, col_type = UUID, nullable = False, server_default = None\<rparr>"]
  have "cell child fkcol \<noteq> NULL" using nn by simp
  then have ref: "refers [fkcol] [''id''] child parent"
    using eq by (auto simp: refers_def key_of_def)
  have fk: "(ct, [fkcol], t, [''id''], CASCADE) \<in> set (foreign_keys s)"
  proof -
    have "(ct, [fkcol], t, [''id''], CASCADE) \<in> set (filter (\<lambda>fk. fst fk = ct) (foreign_keys s))"
      by (simp add: fks)
    then show ?thesis by simp
  qed
  have pos: "0 < row_count s db"
    by (rule row_count_pos[where db = db, OF parent_table parent(1)])
  have "?D ct child"
    by (rule doomed_child[where db = db and p = p, OF fk parent ref pos])
  then show False using c(2) by simp
qed

lemma parent_is_deleted:
  assumes named: "tables_named s t = [\<lparr>table_name = t, columns = cols, constraints = cons\<rparr>]"
    and pk: "PrimaryKeyConstraint [''id''] nm \<in> set cons"
    and no_set_null: "\<forall>fk\<in>set (List.map_filter (foreign_key_of t) cons).
                         snd (snd (snd (snd fk))) \<noteq> SET_NULL"
    and del: "exec s (Delete t p) db = Inr db'"
    and parent: "parent \<in> set (db t)" "p parent"
  shows "parent \<notin> set (db' t)"
proof -
  let ?D = "doomed s db t p"
  have "null_out s db ?D t r = r" for r
    by (rule null_out_unchanged) (use no_set_null in \<open>simp add: foreign_keys_of_table named\<close>)
  then have same: "null_out s db ?D t = id" by (intro ext) simp
  have db': "db' t = filter (\<lambda>r. \<not> ?D t r) (db t)"
    by (simp add: delete_result(1)[OF del] same)
  have "?D t parent" unfolding doomed_def by (rule cascade_steps_incr) (simp add: parent(2))
  then show ?thesis by (simp add: db')
qed

section \<open>The migration on a concrete schema\<close>

lemma upgrade_legacy: "upgrade legacy_schema = Inr migrated_schema"
  by (simp add: upgrade_def upgrade_ops_def legacy_schema_def create_worker_pool_def
      create_worker_def create_worker_pool_queue_def alter_worker_pool_def alter_deployment_def
      alter_flow_run_def table_names_def column_names_def find_table_def alter_table_def
      worker_pool_columns_def worker_columns_def worker_pool_queue_columns_def
      id_created_updated_def worker_pool_constraints_def worker_constraints_def
      worker_pool_queue_constraints_def List.map_filter_simps migrated_schema_def)

lemma foreign_keys_migrated:
  "foreign_keys migrated_schema =
     [(''deployment'', [''worker_pool_queue_id''], ''worker_pool_queue'', [''id''], SET_NULL),
      (''flow_run'', [''worker_pool_queue_id''], ''worker_pool_queue'', [''id''], SET_NULL),
      (''worker_pool'', [''default_queue_id''], ''worker_pool_queue'', [''id''], RESTRICT),
      (''worker'', [''worker_pool_id''], ''worker_pool'', [''id''], CASCADE),
      (''worker_pool_queue'', [''worker_pool_id''], ''worker_pool'', [''id''], CASCADE)]"
  by (simp add: foreign_keys_def migrated_schema_def List.map_filter_simps
      worker_pool_constraints_def worker_constraints_def worker_pool_queue_constraints_def)

lemma row_count_two_pools: "row_count migrated_schema two_pools = 5"
  by (simp add: row_count_def migrated_schema_def two_pools_def)

lemma cascade_step_mono:
  assumes "\<And>t r. D t r \<Longrightarrow> D' t r" "cascade_step s db D t r"
  shows "cascade_step s db D' t r"
  using assms(2) unfolding cascade_step_def list_ex_iff
  by (auto dest: assms(1)) (blast dest: assms(1))

lemma cascade_steps_below:
  assumes closed: "\<And>t r. cascade_step s db D t r \<Longrightarrow> D t r"
    and start: "\<And>t r. D0 t r \<Longrightarrow> D t r"
  shows "((cascade_step s db) ^^ n) D0 t r \<Longrightarrow> D t r"
proof (induction n arbitrary: t r)
  case 0
  then show ?case by (simp add: start)
next
  case (Suc n)
  then have "cascade_step s db (((cascade_step s db) ^^ n) D0) t r" by simp
  then have "cascade_step s db D t r"
    by (rule cascade_step_mono[rotated]) (rule Suc.IH)
  then show ?case by (rule closed)
qed

lemma doomed_two_pools:
  "doomed migrated_schema two_pools ''worker_pool'' (\<lambda>r. cell r ''id'' = UuidV 1) = gone"
proof (intro ext iffI)
  fix t r
  assume "doomed migrated_schema two_pools ''worker_pool'' (\<lambda>r. cell r ''id'' = UuidV 1) t r"
  then show "gone t r"
    unfolding doomed_def
  proof (rule cascade_steps_below[rotated 2])
    fix t r assume "cascade_step migrated_schema two_pools gone t r"
    then show "gone t r"
      by (auto simp: cascade_step_def foreign_keys_migrated gone_def two_pools_def refers_def
          key_of_def pool_row_def cell_def)
  next
    fix t r assume "t = ''worker_pool'' \<and> cell r ''id'' = UuidV 1"
    then show "gone t r" by (simp add: gone_def)
  qed
next
  fix t r
  assume g: "gone t r"
  have pos: "0 < row_count migrated_schema two_pools" by (simp add: row_count_two_pools)
  have parent: "pool_row 1 ''a'' (IntV 5) (UuidV 30) \<in> set (two_pools ''worker_pool'')"
    "cell (pool_row 1 ''a'' (IntV 5) (UuidV 30)) ''id'' = UuidV 1"
    by (simp_all add: two_pools_def pool_row_def cell_def)
  from g consider "t = ''worker_pool''" "cell r ''id'' = UuidV 1"
    | "t = ''worker''" "cell r ''worker_pool_id'' = UuidV 1"
    | "t = ''worker_pool_queue''" "cell r ''worker_pool_id'' = UuidV 1"
    by (auto simp: gone_def)
  then show "doomed migrated_schema two_pools ''worker_pool'' (\<lambda>r. cell r ''id'' = UuidV 1) t r"
  proof cases
    case 1
    then show ?thesis unfolding doomed_def by (intro cascade_steps_incr) simp
  next
    case 2
    have "refers [''worker_pool_id''] [''id''] r (pool_row 1 ''a'' (IntV 5) (UuidV 30))"
      using 2(2) parent(2) by (simp add: refers_def key_of_def)
    moreover have "(''worker'', [''worker_pool_id''], ''worker_pool'', [''id''], CASCADE)
                     \<in> set (foreign_keys migrated_schema)"
      by (simp add: foreign_keys_migrated)
    ultimately show ?thesis
      unfolding 2(1)
      by (intro doomed_child[where db = two_pools and p = "\<lambda>r. cell r ''id'' = UuidV 1"
            and cols = "[''worker_pool_id'']" and rcols = "[''id'']"
            and parent = "pool_row 1 ''a'' (IntV 5) (UuidV 30)"] parent pos)
  next
    case 3
    have "refers [''worker_pool_id''] [''id''] r (pool_row 1 ''a'' (IntV 5) (UuidV 30))"
      using 3(2) parent(2) by (simp add: refers_def key_of_def)
    moreover have "(''worker_pool_queue'', [''worker_pool_id''], ''worker_pool'', [''id''], CASCADE)
                     \<in> set (foreign_keys migrated_schema)"
      by (simp add: foreign_keys_migrated)
    ultimately show ?thesis
      unfolding 3(1)
      by (intro doomed_child[where db = two_pools and p = "\<lambda>r. cell r ''id'' = UuidV 1"
            and cols = "[''worker_pool_id'']" and rcols = "[''id'']"
            and parent = "pool_row 1 ''a'' (IntV 5) (UuidV 30)"] parent pos)
  qed
qed

lemma after_delete_tables:
  "after_delete ''worker_pool'' = [pool_row 2 ''b'' NULL NULL]"
  "after_delete ''worker'' = [worker_row 11 ''w'' 2]"
  "after_delete ''worker_pool_queue'' = []"
  "after_delete ''deployment'' = []"
  "after_delete ''flow_run'' = []"
  by (simp_all add: after_delete_def two_pools_def gone_def null_out_def foreign_keys_migrated
      pool_row_def worker_row_def queue_row_def cell_def)

lemma after_delete_valid: "valid migrated_schema after_delete"
  by (simp add: valid_def migrated_schema_def table_ok_def after_delete_tables not_null_ok_def
      unique_ok_def key_of_def cell_def refers_def pool_row_def worker_row_def
      worker_pool_columns_def worker_columns_def worker_pool_queue_columns_def
      id_created_updated_def worker_pool_constraints_def worker_constraints_def
      worker_pool_queue_constraints_def)

lemma not_blocked_two_pools: "\<not> blocked migrated_schema two_pools gone"
  by (simp add: blocked_def foreign_keys_migrated two_pools_def gone_def refers_def key_of_def
      cell_def pool_row_def worker_row_def queue_row_def)

lemma delete_first_pool:
  "exec migrated_schema (Delete ''worker_pool'' (\<lambda>r. cell r ''id'' = UuidV 1)) two_pools
     = Inr after_delete"
proof -
  have "''worker_pool'' \<in> set (table_names migrated_schema)"
    by (simp add: table_names_def migrated_schema_def)
  then show ?thesis
    using not_blocked_two_pools after_delete_valid
    by (simp only: exec.simps delete_from_def Let_def doomed_two_pools checked_def
        flip: after_delete_def) simp
qed

section \<open>Properties of the state machine and of the Pause-Expiration service\<close>

text \<open>
  C5: a run in a terminal state (Completed, Failed, Crashed, Cancelled) accepts no
  proposed state other than the one it is in: \<open>set_flow_run_state\<close> fails with
  \<open>TerminalStateViolation\<close>, whatever the rule table says and whether \<open>force\<close> is
  set or not, and a failed call returns no changed world.
\<close>

theorem terminal_state_is_absolute:
  assumes "find (\<lambda>r. run_id r = flow_run_id) (rows w) = Some run"
    and "is_terminal (state_type (state run))"
    and "state_type proposed \<noteq> state_type (state run)"
  shows "set_flow_run_state rules clock w flow_run_id proposed force
           = Inl TerminalStateViolation"
  using assms by (auto simp: set_flow_run_state_def)

theorem terminal_state_is_absolute_witness:
  "find (\<lambda>r. run_id r = 7)
        (rows (store_of [\<lparr>run_id = 7, state = Failed ''boom'', state_timestamp = 3\<rparr>]))
     = Some \<lparr>run_id = 7, state = Failed ''boom'', state_timestamp = 3\<rparr>
   \<and> is_terminal (state_type (state \<lparr>run_id = 7, state = Failed ''boom'', state_timestamp = 3\<rparr>))
   \<and> state_type (state (paused_run 7 None))
        \<noteq> state_type (state \<lparr>run_id = 7, state = Failed ''boom'', state_timestamp = 3\<rparr>)
   \<and> set_flow_run_state (\<lambda>a b. True) (\<lambda>k. 0)
        (store_of [\<lparr>run_id = 7, state = Failed ''boom'', state_timestamp = 3\<rparr>])
        7 (state (paused_run 7 None)) True
       = Inl TerminalStateViolation"
proof -
  let ?run = "\<lparr>run_id = 7, state = Failed ''boom'', state_timestamp = 3\<rparr>"
  have 1: "find (\<lambda>r. run_id r = 7) (rows (store_of [?run])) = Some ?run" by simp
  have 2: "is_terminal (state_type (state ?run))" by (simp add: Failed_def)
  have 3: "state_type (state (paused_run 7 None)) \<noteq> state_type (state ?run)"
    by (simp add: Failed_def paused_run_def)
  show ?thesis
    using 1 2 3 terminal_state_is_absolute[OF 1 2 3, of "\<lambda>a b. True" "\<lambda>k. 0" True]
    by simp
qed

text \<open>
  C3: a pass over 200 Paused runs whose timeouts the clock does not pass never ends:
  every batch is the same 200 runs, none of them changes, and no batch is smaller than
  \<open>batch_size\<close>. With a clock that advances by one at every reading and timeouts at
  1000, the pass is, after its first batch, where it was: the store is unchanged and
  the next batch selects the same 200 runs again.
\<close>

theorem run_once_never_ends_on_full_batch_of_pending_runs:
  "run_once FailExpiredPauses_init ssm (\<lambda>k. 0)
     (store_of (map (\<lambda>i. paused_run i (Some 100)) [0..<200])) = None
   \<and> run_once_loop ssm (\<lambda>k. int k) (batch_size FailExpiredPauses_init)
       (store_of (map (\<lambda>i. paused_run i (Some 1000)) [0..<200]))
     = run_once_loop ssm (\<lambda>k. int k) (batch_size FailExpiredPauses_init)
         \<lparr>rows = map (\<lambda>i. paused_run i (Some 1000)) [0..<200], ticks = 200,
          trace = [TxBegin, Fetched 200, TxCommit]\<rparr>"
proof -
  have "stuck (\<lambda>k. 0) 200 (store_of (map (\<lambda>i. paused_run i (Some 100)) [0..<200]))"
    by (simp add: stuck_def select_paused_def pending_throughout_def)
  then have a: "run_once FailExpiredPauses_init ssm (\<lambda>k. 0)
     (store_of (map (\<lambda>i. paused_run i (Some 100)) [0..<200])) = None"
    by (simp add: run_once_def FailExpiredPauses_init_def stuck_diverges)
  define rs where "rs = map (\<lambda>i. paused_run i (Some 1000)) [0..<200]"
  have sel: "select_paused 200 (store_of rs) = rs" by (simp add: select_paused_def rs_def)
  have len: "length rs = 200" by (simp add: rs_def)
  have "mark_each ssm (\<lambda>k. int k)
          ((store_of rs)\<lparr>trace := trace (store_of rs) @ [TxBegin, Fetched (length rs)]\<rparr>) rs
          = Inr ((store_of rs)\<lparr>trace := trace (store_of rs) @ [TxBegin, Fetched (length rs)]\<rparr>
                   \<lparr>ticks := ticks ((store_of rs)\<lparr>trace := trace (store_of rs)
                                        @ [TxBegin, Fetched (length rs)]\<rparr>) + length rs\<rparr>)"
    by (rule mark_each_not_yet) (auto simp: len store_of_def, auto simp: rs_def)
  then have "mark_each ssm (\<lambda>k. int k)
          ((store_of rs)\<lparr>trace := trace (store_of rs)
              @ [TxBegin, Fetched (length (select_paused 200 (store_of rs)))]\<rparr>)
          (select_paused 200 (store_of rs))
          = Inr \<lparr>rows = rs, ticks = 200, trace = [TxBegin, Fetched 200]\<rparr>"
    unfolding sel by (simp add: len store_of_def)
  from loop_unfold_ok[OF this]
  have "run_once_loop ssm (\<lambda>k. int k) 200 (store_of rs)
     = run_once_loop ssm (\<lambda>k. int k) 200
         \<lparr>rows = rs, ticks = 200, trace = [TxBegin, Fetched 200, TxCommit]\<rparr>"
    by (simp add: sel len)
  then have b: "run_once_loop ssm (\<lambda>k. int k) 200
       (store_of (map (\<lambda>i. paused_run i (Some 1000)) [0..<200]))
     = run_once_loop ssm (\<lambda>k. int k) 200
         \<lparr>rows = map (\<lambda>i. paused_run i (Some 1000)) [0..<200], ticks = 200,
          trace = [TxBegin, Fetched 200, TxCommit]\<rparr>"
    by (simp only: rs_def)
  show ?thesis using a b by (simp add: FailExpiredPauses_init_def)
qed

text \<open>
  C1 (as amended): on a store whose flow run ids are distinct and whose Paused runs all
  carry a timeout, with fewer than \<open>batch_size\<close> Paused runs that are not expired
  throughout, one pass of \<open>run_once\<close> returns; for every Paused run whose timeout is
  earlier than every reading of the clock it has called \<open>set_flow_run_state\<close> with
  the Failed state carrying the message "The flow was paused and never resumed." and
  \<open>force=True\<close>, and the run is in that state afterwards; every Paused run whose
  timeout no reading of the clock has passed is in the store as it was.
\<close>

theorem expired_pauses_are_failed:
  assumes "store_ok w" and "length (unexpired clock w) < batch_size self"
  shows "\<exists>w'. run_once self (set_flow_run_state rules clock) clock w = Some (Inr w') \<and>
           (\<forall>r\<in>set (rows w). is_paused r \<and> expired_throughout clock r \<longrightarrow>
              SetStateCall (run_id r) never_resumed True \<in> set (trace w') \<and>
              (\<exists>ts. r\<lparr>state := never_resumed, state_timestamp := ts\<rparr> \<in> set (rows w'))) \<and>
           (\<forall>r\<in>set (rows w). is_paused r \<and> pending_throughout clock r \<longrightarrow>
              r \<in> set (rows w'))"
proof -
  from pass_effect[OF assms, of rules]
  obtain w1 where run: "run_once_loop (set_flow_run_state rules clock) clock (batch_size self) w
                         = Some (Inr w1)"
    and rel: "list_all2 (pass_rel clock (set (trace w1))) (rows w) (rows w1)"
    by blast
  define w' where "w' = w1\<lparr>trace := trace w1 @ [Log INFO ''Finished monitoring for late runs.'']\<rparr>"
  have 1: "run_once self (set_flow_run_state rules clock) clock w = Some (Inr w')"
    by (simp add: run_once_def run w'_def)
  have 2: "SetStateCall (run_id r) never_resumed True \<in> set (trace w') \<and>
           (\<exists>ts. r\<lparr>state := never_resumed, state_timestamp := ts\<rparr> \<in> set (rows w'))"
    if "r \<in> set (rows w)" "is_paused r \<and> expired_throughout clock r" for r
    using pass_rel_expired[OF rel that(1)] that(2) by (auto simp: w'_def)
  have 3: "r \<in> set (rows w')"
    if "r \<in> set (rows w)" "is_paused r \<and> pending_throughout clock r" for r
    using pass_rel_pending[OF rel that(1)] that(2) by (simp add: w'_def)
  show ?thesis using 1 2 3 by (intro exI[of _ w'] conjI ballI impI) blast+
qed

theorem expired_pauses_are_failed_witness:
  "store_ok (store_of [paused_run 1 (Some 0), paused_run 2 (Some 100)])
   \<and> length (unexpired (\<lambda>k. 10) (store_of [paused_run 1 (Some 0), paused_run 2 (Some 100)]))
       < batch_size FailExpiredPauses_init
   \<and> (\<exists>w'. run_once FailExpiredPauses_init (set_flow_run_state (\<lambda>a b. False) (\<lambda>k. 10)) (\<lambda>k. 10)
              (store_of [paused_run 1 (Some 0), paused_run 2 (Some 100)]) = Some (Inr w')
         \<and> SetStateCall 1 never_resumed True \<in> set (trace w')
         \<and> (\<exists>ts. (paused_run 1 (Some 0))\<lparr>state := never_resumed, state_timestamp := ts\<rparr>
                    \<in> set (rows w'))
         \<and> paused_run 2 (Some 100) \<in> set (rows w'))"
proof -
  let ?w = "store_of [paused_run 1 (Some 0), paused_run 2 (Some 100)]"
  have ok: "store_ok ?w" by (simp add: store_ok_def)
  have e1: "expired_throughout (\<lambda>k. 10) (paused_run 1 (Some 0))"
    by (simp add: expired_throughout_def)
  have p2: "pending_throughout (\<lambda>k. 10) (paused_run 2 (Some 100))"
    by (simp add: pending_throughout_def)
  have un: "length (unexpired (\<lambda>k. 10) ?w) < batch_size FailExpiredPauses_init"
    by (simp add: unexpired_def FailExpiredPauses_init_def)
  from expired_pauses_are_failed[OF ok un, of "\<lambda>a b. False"] e1 p2
  show ?thesis using ok un by auto
qed

text \<open>
  C1 as stated fails on the code. A Paused run without a timeout ahead of an expired
  one makes the pass raise before the expired run is looked at: the events of the pass
  hold no call of \<open>set_flow_run_state\<close>. And behind 200 Paused runs whose timeouts
  lie in the future an expired run is never fetched, because the pass never ends.
\<close>

theorem expired_pause_not_failed_counterexample:
  "run_once FailExpiredPauses_init (set_flow_run_state (\<lambda>a b. True) (\<lambda>k. 10)) (\<lambda>k. 10)
     (store_of [paused_run 0 None, paused_run 1 (Some 0)])
     = Some (Inl (TypeError,
          \<lparr>rows = [paused_run 0 None, paused_run 1 (Some 0)], ticks = 1,
           trace = [TxBegin, Fetched 2, TxRollback]\<rparr>))
   \<and> run_once FailExpiredPauses_init (set_flow_run_state (\<lambda>a b. True) (\<lambda>k. 10)) (\<lambda>k. 10)
     (store_of (map (\<lambda>i. paused_run i (Some 100)) [0..<200] @ [paused_run 200 (Some 0)]))
     = None"
proof -
  let ?ssm = "set_flow_run_state (\<lambda>a b. True) (\<lambda>k. 10)"
  let ?w = "store_of [paused_run 0 None, paused_run 1 (Some 0)]"
  have sel: "select_paused 200 ?w = [paused_run 0 None, paused_run 1 (Some 0)]"
    by (simp add: select_paused_def)
  have "mark_each ?ssm (\<lambda>k. 10) (?w\<lparr>trace := trace ?w @ [TxBegin, Fetched (length (select_paused 200 ?w))]\<rparr>)
          (select_paused 200 ?w)
        = Inl (TypeError, \<lparr>rows = [paused_run 0 None, paused_run 1 (Some 0)], ticks = 1,
                          trace = [TxBegin, Fetched 2]\<rparr>)"
    unfolding sel by (simp add: mark_unset store_of_def)
  from loop_unfold_raise[OF this]
  have a: "run_once FailExpiredPauses_init ?ssm (\<lambda>k. 10) ?w
     = Some (Inl (TypeError,
          \<lparr>rows = [paused_run 0 None, paused_run 1 (Some 0)], ticks = 1,
           trace = [TxBegin, Fetched 2, TxRollback]\<rparr>))"
    by (simp add: run_once_def FailExpiredPauses_init_def)
  have "stuck (\<lambda>k. 10) 200
          (store_of (map (\<lambda>i. paused_run i (Some 100)) [0..<200] @ [paused_run 200 (Some 0)]))"
    by (simp add: stuck_def select_paused_def pending_throughout_def)
  then have b: "run_once FailExpiredPauses_init ?ssm (\<lambda>k. 10)
     (store_of (map (\<lambda>i. paused_run i (Some 100)) [0..<200] @ [paused_run 200 (Some 0)])) = None"
    by (simp add: run_once_def FailExpiredPauses_init_def stuck_diverges)
  show ?thesis using a b by simp
qed


text \<open>
  C4 (as amended): when the attempt for one candidate of a batch raises, be it the
  comparison of the timeout or \<open>set_flow_run_state\<close>, the error leaves
  \<open>run_once\<close>: the candidates after it are not processed, \<open>run_once\<close> logs
  nothing, the transaction of the batch is rolled back, and the pass ends with that
  error.
\<close>

theorem failure_aborts_pass:
  assumes "select_paused (batch_size self) w = before @ r # rest"
    and "mark_each ssm clock
           (w\<lparr>trace := trace w @ [TxBegin, Fetched (length (before @ r # rest))]\<rparr>) before = Inr w1"
    and "mark_flow_run_as_failed ssm clock w1 r = Inl (e, w2)"
  shows "run_once self ssm clock w
           = Some (Inl (e, w2\<lparr>rows := rows w, trace := trace w2 @ [TxRollback]\<rparr>))"
  using loop_aborts[OF assms] by (simp add: run_once_def)

theorem failure_aborts_pass_witness:
  "select_paused (batch_size FailExpiredPauses_init) (store_of five_candidates)
     = [paused_run 1 (Some 0)] @ paused_run 2 (Some 0) # drop 2 five_candidates
   \<and> mark_each refusing_second (\<lambda>k. 10)
       ((store_of five_candidates)\<lparr>trace := trace (store_of five_candidates) @
           [TxBegin, Fetched (length ([paused_run 1 (Some 0)] @ paused_run 2 (Some 0)
                                        # drop 2 five_candidates))]\<rparr>)
       [paused_run 1 (Some 0)] = Inr after_first_candidate
   \<and> mark_flow_run_as_failed refusing_second (\<lambda>k. 10) after_first_candidate
       (paused_run 2 (Some 0))
     = Inl (InvalidTransition, after_second_candidate)
   \<and> run_once FailExpiredPauses_init refusing_second (\<lambda>k. 10) (store_of five_candidates)
     = Some (Inl (InvalidTransition,
          after_second_candidate
            \<lparr>rows := rows (store_of five_candidates),
             trace := trace after_second_candidate @ [TxRollback]\<rparr>))"
proof -
  have bs: "batch_size FailExpiredPauses_init = 200" by (simp add: FailExpiredPauses_init_def)
  note h = refused_second_candidate[folded bs]
  from failure_aborts_pass[OF h(1) h(2) h(3)] h(1) h(2) h(3)
  show ?thesis by (intro conjI)
qed

text \<open>
  C4 as stated fails on the code: \<open>run_once\<close> has no handler around the attempt for
  a candidate. With five expired candidates, the second of which the state machine
  refuses with \<open>InvalidTransition\<close>, the pass raises that error; candidates 3, 4 and
  5 are never attempted, nothing is logged, and the transition of candidate 1 is
  rolled back with the transaction.
\<close>

theorem isolation_counterexample:
  "run_once FailExpiredPauses_init
     (fails_for 2 InvalidTransition (set_flow_run_state (\<lambda>a b. True) (\<lambda>k. 10))) (\<lambda>k. 10)
     (store_of [paused_run 1 (Some 0), paused_run 2 (Some 0), paused_run 3 (Some 0),
                paused_run 4 (Some 0), paused_run 5 (Some 0)])
   = Some (Inl (InvalidTransition,
        \<lparr>rows = [paused_run 1 (Some 0), paused_run 2 (Some 0), paused_run 3 (Some 0),
                 paused_run 4 (Some 0), paused_run 5 (Some 0)],
         ticks = 3,
         trace = [TxBegin, Fetched 5, SetStateCall 1 never_resumed True,
                  SetStateCall 2 never_resumed True, TxRollback]\<rparr>))"
proof -
  have bs: "batch_size FailExpiredPauses_init = 200" by (simp add: FailExpiredPauses_init_def)
  note h = refused_second_candidate
  from loop_aborts[OF h(1) h(2) h(3)]
  show ?thesis
    by (simp add: run_once_def bs store_of_def five_candidates_def refusing_second_def
        after_first_candidate_def after_second_candidate_def)
qed

text \<open>
  C6: when a batch holds a Paused run whose \<open>pause_timeout\<close> is unset, the pass
  raises instead of skipping the run: \<open>run_once\<close> returns the error, with the
  transaction of the batch rolled back. The error is the \<open>TypeError\<close> of the
  comparison unless \<open>set_flow_run_state\<close> raised for an earlier candidate; with
  the state machine of the spec on a store with distinct flow run ids it is the
  \<open>TypeError\<close>.
\<close>

theorem unset_timeout_aborts_pass:
  assumes "r \<in> set (select_paused (batch_size self) w)"
    and "pause_timeout (state_details (state r)) = None"
  shows "(\<exists>e w'. run_once self ssm clock w = Some (Inl (e, w')) \<and> rows w' = rows w \<and>
                 (e = TypeError \<or> (\<exists>w0 i s. ssm w0 i s True = Inl e))) \<and>
         (distinct (map run_id (rows w)) \<longrightarrow>
            (\<exists>w'. run_once self (set_flow_run_state rules clock) clock w
                     = Some (Inl (TypeError, w')) \<and> rows w' = rows w))"
proof -
  let ?bs = "batch_size self"
  let ?runs = "select_paused ?bs w"
  let ?w0 = "w\<lparr>trace := trace w @ [TxBegin, Fetched (length ?runs)]\<rparr>"
  have gen: "\<exists>e w'. run_once self ssm clock w = Some (Inl (e, w')) \<and> rows w' = rows w \<and>
                 (e = TypeError \<or> (\<exists>w0 i s. ssm w0 i s True = Inl e))" for ssm
  proof -
    from mark_each_unset_raises[OF assms, of ssm clock ?w0]
    obtain e w1 where m: "mark_each ssm clock ?w0 ?runs = Inl (e, w1)"
      and e: "e = TypeError \<or> (\<exists>w0 i s. ssm w0 i s True = Inl e)"
      by blast
    have "run_once self ssm clock w
            = Some (Inl (e, w1\<lparr>rows := rows w, trace := trace w1 @ [TxRollback]\<rparr>))"
      using loop_unfold_raise[OF m] by (simp add: run_once_def)
    then show ?thesis using e by (intro exI[of _ e] exI[of _ "w1\<lparr>rows := rows w, trace := trace w1 @ [TxRollback]\<rparr>"]) simp
  qed
  have spec: "\<exists>w'. run_once self (set_flow_run_state rules clock) clock w
                     = Some (Inl (TypeError, w')) \<and> rows w' = rows w"
    if d: "distinct (map run_id (rows w))"
  proof -
    let ?ssm = "set_flow_run_state rules clock"
    from mark_each_unset_raises[OF assms, of ?ssm clock ?w0]
    obtain e w1 where m: "mark_each ?ssm clock ?w0 ?runs = Inl (e, w1)" by blast
    have sub: "set ?runs \<subseteq> set (rows ?w0)"
      using set_take_subset[of ?bs "filter is_paused (rows w)"] by (auto simp: select_paused_def)
    have dr: "distinct ?runs" using d by (simp add: select_paused_def distinct_map)
    have p: "\<forall>r\<in>set ?runs. is_paused r"
      using set_take_subset[of ?bs "filter is_paused (rows w)"] by (auto simp: select_paused_def)
    have "e = TypeError"
      by (rule mark_each_spec_raises_TypeError[OF _ sub dr p m]) (use d in simp)
    then have "run_once self ?ssm clock w
            = Some (Inl (TypeError, w1\<lparr>rows := rows w, trace := trace w1 @ [TxRollback]\<rparr>))"
      using loop_unfold_raise[OF m] by (simp add: run_once_def)
    then show ?thesis by simp
  qed
  show ?thesis using gen[of ssm] spec by blast
qed

theorem unset_timeout_aborts_pass_witness:
  "paused_run 2 None
     \<in> set (select_paused (batch_size FailExpiredPauses_init)
              (store_of [paused_run 1 (Some 0), paused_run 2 None, paused_run 3 (Some 0)]))
   \<and> pause_timeout (state_details (state (paused_run 2 None))) = None
   \<and> distinct (map run_id (rows (store_of [paused_run 1 (Some 0), paused_run 2 None, paused_run 3 (Some 0)])))
   \<and> (\<exists>w'. run_once FailExpiredPauses_init (set_flow_run_state (\<lambda>a b. True) (\<lambda>k. 10)) (\<lambda>k. 10)
              (store_of [paused_run 1 (Some 0), paused_run 2 None, paused_run 3 (Some 0)])
            = Some (Inl (TypeError, w'))
          \<and> rows w' = [paused_run 1 (Some 0), paused_run 2 None, paused_run 3 (Some 0)])"
proof -
  let ?w = "store_of [paused_run 1 (Some 0), paused_run 2 None, paused_run 3 (Some 0)]"
  have 1: "paused_run 2 None \<in> set (select_paused (batch_size FailExpiredPauses_init) ?w)"
    by (simp add: select_paused_def FailExpiredPauses_init_def)
  have 2: "pause_timeout (state_details (state (paused_run 2 None))) = None" by simp
  have 3: "distinct (map run_id (rows ?w))" by simp
  from unset_timeout_aborts_pass[OF 1 2, of "set_flow_run_state (\<lambda>a b. True) (\<lambda>k. 10)" "\<lambda>k. 10" "\<lambda>a b. True"]
  show ?thesis using 1 2 3 by simp
qed

text \<open>
  C2: with 450 Paused runs, all expired, and \<open>batch_size = 200\<close>, one call of
  \<open>run_once\<close> returns with every one of them Failed and no Paused run left. Apart
  from its 450 calls of \<open>set_flow_run_state\<close> the pass does this and nothing else:
  three times it opens a transaction, fetches a batch and commits, the batches being of
  200, 200 and 50 runs; after the batch of \<open>50 < 200\<close> runs it fetches no more and
  logs that it has finished.
\<close>

theorem backlog_of_450_is_drained:
  assumes "store_ok w" and "unexpired clock w = []"
    and "length (filter is_paused (rows w)) = 450"
  shows "\<exists>w' new.
           run_once FailExpiredPauses_init (set_flow_run_state rules clock) clock w
             = Some (Inr w') \<and>
           (\<forall>r\<in>set (rows w). is_paused r \<longrightarrow>
              (\<exists>ts. r\<lparr>state := never_resumed, state_timestamp := ts\<rparr> \<in> set (rows w'))) \<and>
           filter is_paused (rows w') = [] \<and>
           trace w' = trace w @ new \<and>
           filter (\<lambda>e. \<not> is_call e) new =
             [TxBegin, Fetched 200, TxCommit, TxBegin, Fetched 200, TxCommit,
              TxBegin, Fetched 50, TxCommit, Log INFO ''Finished monitoring for late runs.''] \<and>
           length (filter is_call new) = 450"
proof -
  let ?ssm = "set_flow_run_state rules clock"
  have un: "length (unexpired clock w) < 200" using assms(2) by simp
  from pass_effect[OF assms(1) un, of rules]
  obtain w4 where run: "run_once_loop ?ssm clock 200 w = Some (Inr w4)"
    and rel: "list_all2 (pass_rel clock (set (trace w4))) (rows w) (rows w4)"
    by blast
  from all_expired_full_batch[OF assms(1,2), of 200 rules]
  obtain w1 cs1 where s1: "run_once_loop ?ssm clock 200 w = run_once_loop ?ssm clock 200 w1"
    "store_ok w1" "unexpired clock w1 = []" "length (filter is_paused (rows w1)) = 250"
    "trace w1 = trace w @ [TxBegin, Fetched 200] @ cs1 @ [TxCommit]"
    "list_all is_call cs1" "length cs1 = 200"
    using assms(3) by auto
  from all_expired_full_batch[OF s1(2,3), of 200 rules]
  obtain w2 cs2 where s2: "run_once_loop ?ssm clock 200 w1 = run_once_loop ?ssm clock 200 w2"
    "store_ok w2" "unexpired clock w2 = []" "length (filter is_paused (rows w2)) = 50"
    "trace w2 = trace w1 @ [TxBegin, Fetched 200] @ cs2 @ [TxCommit]"
    "list_all is_call cs2" "length cs2 = 200"
    using s1(4) by auto
  from all_expired_last_batch[OF s2(2,3), of 200 rules]
  obtain w3 cs3 where s3: "run_once_loop ?ssm clock 200 w2 = Some (Inr w3)"
    "filter is_paused (rows w3) = []"
    "trace w3 = trace w2 @ [TxBegin, Fetched 50] @ cs3 @ [TxCommit]"
    "list_all is_call cs3" "length cs3 = 50"
    using s2(4) by auto
  have w43: "w4 = w3" using run s1(1) s2(1) s3(1) by simp
  define new where "new = [TxBegin, Fetched 200] @ cs1 @ [TxCommit] @ [TxBegin, Fetched 200] @ cs2
      @ [TxCommit] @ [TxBegin, Fetched 50] @ cs3 @ [TxCommit]
      @ [Log INFO ''Finished monitoring for late runs.'']"
  define w' where "w' = w3\<lparr>trace := trace w3 @ [Log INFO ''Finished monitoring for late runs.'']\<rparr>"
  have 1: "run_once FailExpiredPauses_init ?ssm clock w = Some (Inr w')"
    using run by (simp add: run_once_def FailExpiredPauses_init_def w43 w'_def)
  have 2: "\<exists>ts. r\<lparr>state := never_resumed, state_timestamp := ts\<rparr> \<in> set (rows w')"
    if "r \<in> set (rows w)" "is_paused r" for r
  proof -
    have "expired_throughout clock r"
      using assms(2) that by (auto simp: unexpired_def filter_empty_conv)
    from pass_rel_expired[OF rel that this] show ?thesis by (simp add: w43 w'_def)
  qed
  have 3: "filter is_paused (rows w') = []" using s3(2) by (simp add: w'_def)
  have 4: "trace w' = trace w @ new" by (simp add: w'_def new_def s3(3) s2(5) s1(5))
  have 5: "filter (\<lambda>e. \<not> is_call e) new =
             [TxBegin, Fetched 200, TxCommit, TxBegin, Fetched 200, TxCommit,
              TxBegin, Fetched 50, TxCommit, Log INFO ''Finished monitoring for late runs.'']"
    by (simp add: new_def no_calls_left[OF s1(6)] no_calls_left[OF s2(6)] no_calls_left[OF s3(4)])
  have 6: "length (filter is_call new) = 450"
    by (simp add: new_def all_calls_kept[OF s1(6)] all_calls_kept[OF s2(6)] all_calls_kept[OF s3(4)]
        s1(7) s2(7) s3(5))
  show ?thesis using 1 2 3 4 5 6 by (intro exI[of _ w'] exI[of _ new] conjI ballI impI) blast+
qed

theorem backlog_of_450_is_drained_witness:
  "store_ok (store_of (map (\<lambda>i. paused_run i (Some (int i))) [0..<450]))
   \<and> unexpired (\<lambda>k. 1000 + int k) (store_of (map (\<lambda>i. paused_run i (Some (int i))) [0..<450])) = []
   \<and> length (filter is_paused (rows (store_of (map (\<lambda>i. paused_run i (Some (int i))) [0..<450])))) = 450
   \<and> (\<exists>w' new.
         run_once FailExpiredPauses_init (set_flow_run_state (\<lambda>a b. False) (\<lambda>k. 1000 + int k))
           (\<lambda>k. 1000 + int k) (store_of (map (\<lambda>i. paused_run i (Some (int i))) [0..<450]))
           = Some (Inr w') \<and>
         filter is_paused (rows w') = [] \<and>
         trace w' = new \<and>
         filter (\<lambda>e. \<not> is_call e) new =
             [TxBegin, Fetched 200, TxCommit, TxBegin, Fetched 200, TxCommit,
              TxBegin, Fetched 50, TxCommit, Log INFO ''Finished monitoring for late runs.''] \<and>
         length (filter is_call new) = 450)"
proof -
  let ?w = "store_of (map (\<lambda>i. paused_run i (Some (int i))) [0..<450])"
  let ?clock = "\<lambda>k. 1000 + int k"
  have ok: "store_ok ?w" by (auto simp: store_ok_def o_def)
  have un: "unexpired ?clock ?w = []"
    by (auto simp: unexpired_def filter_empty_conv expired_throughout_def)
  have n: "length (filter is_paused (rows ?w)) = 450" by simp
  from backlog_of_450_is_drained[OF ok un n, of "\<lambda>a b. False"]
  show ?thesis using ok un n by (simp only: trace_store_of append_Nil) blast
qed

section \<open>Properties of the loop service\<close>

text \<open>
  C7: when \<open>run_once\<close> raises in an iteration of a loop service, that iteration is
  the last: the loop ends with the service stopped, however many iterations were
  asked for, and the service has logged exactly one record, at error severity, with
  the short description of the exception.
\<close>

theorem error_in_run_once_stops_the_service:
  assumes "\<forall>j<k. run_once_fn (ws j) = Some (Inr (ws (Suc j)))"
    and "run_once_fn (ws k) = Some (Inl (e, w'))"
    and "case loops of None \<Rightarrow> True | Some n \<Rightarrow> k < n"
  shows "start run_once_fn describe loops (ws 0)
         = Some \<lparr>inner = w', iterations = Suc k,
                 service_log = [(ERROR, describe e)], is_running = False\<rparr>"
  using run_loop_from[OF assms, of 0 describe "[]"] by (simp add: start_def)

theorem error_in_run_once_stops_the_service_witness:
  "counting_service 0 = Some (Inr 1)
   \<and> counting_service 1 = Some (Inr 2)
   \<and> counting_service 2 = Some (Inl (StoreConflict, 2))
   \<and> (2::nat) < 5
   \<and> start counting_service (\<lambda>e. ''StoreConflict'') (Some 5) 0
       = Some \<lparr>inner = 2, iterations = 3,
               service_log = [(ERROR, ''StoreConflict'')], is_running = False\<rparr>"
proof -
  have 1: "\<forall>j<2. counting_service ((\<lambda>j. j) j) = Some (Inr ((\<lambda>j. j) (Suc j)))"
    by (simp add: counting_service_def)
  have 2: "counting_service ((\<lambda>j. j) 2) = Some (Inl (StoreConflict, 2))"
    by (simp add: counting_service_def)
  have 3: "case Some (5::nat) of None \<Rightarrow> True | Some n \<Rightarrow> 2 < n" by simp
  have 4: "counting_service 0 = Some (Inr 1)" "counting_service 1 = Some (Inr 2)"
    "counting_service 2 = Some (Inl (StoreConflict, 2))"
    by (simp_all add: counting_service_def)
  from error_in_run_once_stops_the_service[OF 1 2 3, of "\<lambda>e. ''StoreConflict''"]
  show ?thesis using 4 by (simp add: numeral_3_eq_3)
qed

section \<open>Properties of the worker tables\<close>

text \<open>
  C8: the migration declares the foreign keys of \<open>worker\<close> and of
  \<open>worker_pool_queue\<close> to \<open>worker_pool\<close> with \<open>ON DELETE CASCADE\<close>, and so a
  statement that deletes worker pools leaves, when the database executes it, none of
  the deleted pools, no worker and no worker pool queue of a deleted pool: they go
  with the pool in the one statement.
\<close>

theorem deleting_a_pool_deletes_its_workers_and_queues:
  assumes "upgrade base = Inr sch"
    and "exec sch (Delete ''worker_pool'' p) db = Inr db'"
    and "pool \<in> set (db ''worker_pool'')" and "p pool"
  shows "(''worker'', [''worker_pool_id''], ''worker_pool'', [''id''], CASCADE)
           \<in> set (foreign_keys sch) \<and>
         (''worker_pool_queue'', [''worker_pool_id''], ''worker_pool'', [''id''], CASCADE)
           \<in> set (foreign_keys sch) \<and>
         pool \<notin> set (db' ''worker_pool'') \<and>
         (\<forall>w\<in>set (db' ''worker''). cell w ''worker_pool_id'' \<noteq> cell pool ''id'') \<and>
         (\<forall>q\<in>set (db' ''worker_pool_queue''). cell q ''worker_pool_id'' \<noteq> cell pool ''id'')"
proof -
  note wt = worker_table_after_upgrade[OF assms(1)]
  note qt = worker_pool_queue_table_after_upgrade[OF assms(1)]
  note pt = worker_pool_table_after_upgrade[OF assms(1)]
  have 1: "(''worker'', [''worker_pool_id''], ''worker_pool'', [''id''], CASCADE)
           \<in> set (foreign_keys sch)"
    by (rule foreign_key_member[OF wt]) (simp add: worker_constraints_def)
  have 2: "(''worker_pool_queue'', [''worker_pool_id''], ''worker_pool'', [''id''], CASCADE)
           \<in> set (foreign_keys sch)"
    by (rule foreign_key_member[OF qt]) (simp add: worker_pool_queue_constraints_def)
  have 3: "pool \<notin> set (db' ''worker_pool'')"
    by (rule parent_is_deleted[OF pt _ _ assms(2,3,4), of "''pk_worker_pool''"])
       (simp_all add: worker_pool_constraints_def List.map_filter_simps)
  have 4: "cell w ''worker_pool_id'' \<noteq> cell pool ''id''" if "w \<in> set (db' ''worker'')" for w
    by (rule children_are_deleted[OF wt _ _ pt assms(2,3,4) that])
       (simp_all add: worker_constraints_def worker_columns_def List.map_filter_simps)
  have 5: "cell q ''worker_pool_id'' \<noteq> cell pool ''id''"
    if "q \<in> set (db' ''worker_pool_queue'')" for q
    by (rule children_are_deleted[OF qt _ _ pt assms(2,3,4) that])
       (simp_all add: worker_pool_queue_constraints_def worker_pool_queue_columns_def
          List.map_filter_simps)
  show ?thesis using 1 2 3 4 5 by blast
qed

theorem deleting_a_pool_deletes_its_workers_and_queues_witness:
  "upgrade legacy_schema = Inr migrated_schema
   \<and> exec migrated_schema (Delete ''worker_pool'' (\<lambda>r. cell r ''id'' = UuidV 1)) two_pools
       = Inr after_delete
   \<and> pool_row 1 ''a'' (IntV 5) (UuidV 30) \<in> set (two_pools ''worker_pool'')
   \<and> cell (pool_row 1 ''a'' (IntV 5) (UuidV 30)) ''id'' = UuidV 1
   \<and> two_pools ''worker'' = [worker_row 10 ''w'' 1, worker_row 11 ''w'' 2]
   \<and> two_pools ''worker_pool_queue'' = [queue_row 30 ''default'' NULL 1]
   \<and> pool_row 1 ''a'' (IntV 5) (UuidV 30) \<notin> set (after_delete ''worker_pool'')
   \<and> after_delete ''worker'' = [worker_row 11 ''w'' 2]
   \<and> cell (worker_row 11 ''w'' 2) ''worker_pool_id'' \<noteq> UuidV 1
   \<and> after_delete ''worker_pool_queue'' = []"
proof -
  have 3: "pool_row 1 ''a'' (IntV 5) (UuidV 30) \<in> set (two_pools ''worker_pool'')"
    by (simp add: two_pools_def)
  have 4: "cell (pool_row 1 ''a'' (IntV 5) (UuidV 30)) ''id'' = UuidV 1"
    by (simp add: pool_row_def cell_def)
  have 5: "two_pools ''worker'' = [worker_row 10 ''w'' 1, worker_row 11 ''w'' 2]"
    "two_pools ''worker_pool_queue'' = [queue_row 30 ''default'' NULL 1]"
    by (simp_all add: two_pools_def)
  from deleting_a_pool_deletes_its_workers_and_queues[OF upgrade_legacy delete_first_pool 3 4]
  show ?thesis using upgrade_legacy delete_first_pool 3 4 5
    by (simp add: after_delete_tables worker_row_def cell_def)
qed

text \<open>
  C9: the migration declares \<open>concurrency_limit\<close> as a nullable integer column of
  \<open>worker_pool\<close> and of \<open>worker_pool_queue\<close>. The effective limit of a queue is
  the least of the limits that are set on its pool and on itself, and no limit (rather
  than some number) exactly when neither is set.
\<close>

theorem effective_limit_is_least_set_limit:
  assumes "upgrade base = Inr sch"
  shows "(\<exists>tb c. tables_named sch ''worker_pool'' = [tb] \<and> c \<in> set (columns tb) \<and>
                 col_name c = ''concurrency_limit'' \<and> col_type c = Integer \<and> nullable c) \<and>
         (\<exists>tb c. tables_named sch ''worker_pool_queue'' = [tb] \<and> c \<in> set (columns tb) \<and>
                 col_name c = ''concurrency_limit'' \<and> col_type c = Integer \<and> nullable c) \<and>
         effective_concurrency_limit pool queue =
           (let set_limits = List.map_filter (\<lambda>l. l) [concurrency_limit pool, concurrency_limit queue]
            in if set_limits = [] then None else Some (Min (set set_limits))) \<and>
         (effective_concurrency_limit pool queue = None) =
           (concurrency_limit pool = None \<and> concurrency_limit queue = None)"
proof -
  let ?c = "\<lparr>col_name = ''concurrency_limit'', col_type = Integer, nullable = True,
             server_default = None\<rparr>"
  have 1: "\<exists>tb c. tables_named sch ''worker_pool'' = [tb] \<and> c \<in> set (columns tb) \<and>
                 col_name c = ''concurrency_limit'' \<and> col_type c = Integer \<and> nullable c"
    using worker_pool_table_after_upgrade[OF assms]
    by (intro exI[of _ ?c] exI conjI) (auto simp: worker_pool_columns_def)
  have 2: "\<exists>tb c. tables_named sch ''worker_pool_queue'' = [tb] \<and> c \<in> set (columns tb) \<and>
                 col_name c = ''concurrency_limit'' \<and> col_type c = Integer \<and> nullable c"
    using worker_pool_queue_table_after_upgrade[OF assms]
    by (intro exI[of _ ?c] exI conjI) (auto simp: worker_pool_queue_columns_def)
  have 3: "effective_concurrency_limit pool queue =
           (let set_limits = List.map_filter (\<lambda>l. l) [concurrency_limit pool, concurrency_limit queue]
            in if set_limits = [] then None else Some (Min (set set_limits)))"
    by (auto simp: effective_concurrency_limit_def List.map_filter_simps Let_def min_def
        split: option.splits)
  have 4: "(effective_concurrency_limit pool queue = None) =
           (concurrency_limit pool = None \<and> concurrency_limit queue = None)"
    by (auto simp: effective_concurrency_limit_def split: option.splits)
  show ?thesis using 1 2 3 4 by blast
qed

theorem effective_limit_is_least_set_limit_witness:
  "upgrade legacy_schema = Inr migrated_schema
   \<and> effective_concurrency_limit (pool_row 2 ''a'' (IntV 5) NULL)
       (queue_row 30 ''default'' NULL 2) = Some 5
   \<and> effective_concurrency_limit (pool_row 2 ''b'' NULL NULL)
       (queue_row 31 ''q'' (IntV 3) 2) = Some 3
   \<and> effective_concurrency_limit (pool_row 2 ''b'' NULL NULL)
       (queue_row 30 ''default'' NULL 2) = None"
proof -
  have c: "concurrency_limit (pool_row 2 ''a'' (IntV 5) NULL) = Some 5"
    "concurrency_limit (queue_row 30 ''default'' NULL 2) = None"
    "concurrency_limit (pool_row 2 ''b'' NULL NULL) = None"
    "concurrency_limit (queue_row 31 ''q'' (IntV 3) 2) = Some 3"
    by (simp_all add: concurrency_limit_def cell_def pool_row_def queue_row_def)
  from effective_limit_is_least_set_limit[OF upgrade_legacy,
      of "pool_row 2 ''a'' (IntV 5) NULL" "queue_row 30 ''default'' NULL 2"]
    effective_limit_is_least_set_limit[OF upgrade_legacy,
      of "pool_row 2 ''b'' NULL NULL" "queue_row 31 ''q'' (IntV 3) 2"]
    effective_limit_is_least_set_limit[OF upgrade_legacy,
      of "pool_row 2 ''b'' NULL NULL" "queue_row 30 ''default'' NULL 2"]
  show ?thesis using upgrade_legacy by (simp add: c List.map_filter_simps)
qed

text \<open>
  C10: after the migration, whatever statements are executed on a database that
  satisfies the schema, no two worker pools have the same name, no two workers agree
  on pool and name, and no two worker pool queues agree on pool and name: the
  database refuses every statement whose result would break one of the three unique
  constraints.
\<close>

theorem identities_stay_unique:
  assumes "upgrade base = Inr sch" and "valid sch db"
  shows "distinct (map (\<lambda>r. cell r ''name'') (exec_all sch sts db ''worker_pool'')) \<and>
         distinct (map (\<lambda>r. (cell r ''worker_pool_id'', cell r ''name''))
                       (exec_all sch sts db ''worker'')) \<and>
         distinct (map (\<lambda>r. (cell r ''worker_pool_id'', cell r ''name''))
                       (exec_all sch sts db ''worker_pool_queue''))"
proof -
  have v: "valid sch (exec_all sch sts db)" by (rule exec_all_valid[OF assms(2)])
  show ?thesis
    using pool_names_distinct[OF assms(1) v] worker_identity_distinct[OF assms(1) v]
      queue_identity_distinct[OF assms(1) v] by simp
qed

theorem identities_stay_unique_witness:
  "upgrade legacy_schema = Inr migrated_schema \<and> valid migrated_schema (\<lambda>t. []) \<and>
     distinct (map (\<lambda>r. cell r ''name'')
       (exec_all migrated_schema
          [Insert ''worker_pool'' (pool_row 2 ''a'' NULL NULL),
           Insert ''worker_pool'' (pool_row 3 ''a'' NULL NULL)]
          (\<lambda>t. []) ''worker_pool'')) \<and>
     distinct (map (\<lambda>r. (cell r ''worker_pool_id'', cell r ''name''))
       (exec_all migrated_schema
          [Insert ''worker_pool'' (pool_row 2 ''a'' NULL NULL),
           Insert ''worker_pool'' (pool_row 3 ''a'' NULL NULL)]
          (\<lambda>t. []) ''worker'')) \<and>
     distinct (map (\<lambda>r. (cell r ''worker_pool_id'', cell r ''name''))
       (exec_all migrated_schema
          [Insert ''worker_pool'' (pool_row 2 ''a'' NULL NULL),
           Insert ''worker_pool'' (pool_row 3 ''a'' NULL NULL)]
          (\<lambda>t. []) ''worker_pool_queue''))"
proof -
  have v: "valid migrated_schema (\<lambda>t. [])" by (rule valid_empty)
  from identities_stay_unique[OF upgrade_legacy v] upgrade_legacy v show ?thesis by blast
qed

end
